theory Spec2Isabelle
  imports Main
begin

section \<open>Data model\<close>

text \<open>
  The source represents a colour by the one-letter strings \<open>'w'\<close> and \<open>'b'\<close>, a piece
  type by one of \<open>'p' 'n' 'b' 'r' 'q' 'k'\<close>, a piece by a pair (colour, type) and the
  board by a list of rows, each row a list of optional pieces (row 0 is rank 8).
  Coordinates are Python integers, hence \<open>int\<close>.
\<close>

datatype color = White | Black

datatype kind = Pawn | Knight | Bishop | Rook | Queen | King

type_synonym piece = "color \<times> kind"

type_synonym board = "piece option list list"

type_synonym square = "int \<times> int"

text \<open>
  The exceptions the source can raise. \<open>NonTermination\<close> is not an exception: it is the
  value of a loop that would run forever (a ray walked with the step (0, 0)).
\<close>

datatype error = IndexError | ValueError | TypeError | NonTermination

subsection \<open>Python list access\<close>

text \<open>
  \<open>xs[i]\<close> accepts \<open>-len(xs) \<le> i < len(xs)\<close>, a negative index counting from the
  end, and raises IndexError otherwise.
\<close>

definition py_index :: "'a list \<Rightarrow> int \<Rightarrow> error + nat" where
  "py_index xs i =
     (let n = int (length xs); j = (if i < 0 then n + i else i)
      in if 0 \<le> j \<and> j < n then Inr (nat j) else Inl IndexError)"

definition getitem :: "'a list \<Rightarrow> int \<Rightarrow> error + 'a" where
  "getitem xs i = (case py_index xs i of Inl e \<Rightarrow> Inl e | Inr j \<Rightarrow> Inr (xs ! j))"

definition setitem :: "'a list \<Rightarrow> int \<Rightarrow> 'a \<Rightarrow> error + 'a list" where
  "setitem xs i v = (case py_index xs i of Inl e \<Rightarrow> Inl e | Inr j \<Rightarrow> Inr (xs[j := v]))"

text \<open>\<open>board[r][c]\<close> and \<open>board[r][c] = v\<close>.\<close>

definition cell :: "board \<Rightarrow> int \<Rightarrow> int \<Rightarrow> error + piece option" where
  "cell board r c = (case getitem board r of Inl e \<Rightarrow> Inl e | Inr row \<Rightarrow> getitem row c)"

definition set_cell :: "board \<Rightarrow> int \<Rightarrow> int \<Rightarrow> piece option \<Rightarrow> error + board" where
  "set_cell board r c v =
     (case getitem board r of
        Inl e \<Rightarrow> Inl e
      | Inr row \<Rightarrow>
          (case setitem row c v of
             Inl e \<Rightarrow> Inl e
           | Inr row' \<Rightarrow> setitem board r row'))"

subsection \<open>Loops\<close>

text \<open>
  \<open>for x in xs: if f(x): return True\<close>, falling through with False;
  \<open>for x in xs: if f(x): return x\<close>, falling through with None;
  and \<open>for x in xs: s = f(x, s)\<close>. An exception in the body leaves the loop.
\<close>

fun any_m :: "('a \<Rightarrow> error + bool) \<Rightarrow> 'a list \<Rightarrow> error + bool" where
  "any_m f [] = Inr False"
| "any_m f (x # xs) =
     (case f x of Inl e \<Rightarrow> Inl e | Inr found \<Rightarrow> if found then Inr True else any_m f xs)"

fun first_m :: "('a \<Rightarrow> error + bool) \<Rightarrow> 'a list \<Rightarrow> error + 'a option" where
  "first_m f [] = Inr None"
| "first_m f (x # xs) =
     (case f x of Inl e \<Rightarrow> Inl e | Inr found \<Rightarrow> if found then Inr (Some x) else first_m f xs)"

fun fold_m :: "('a \<Rightarrow> 's \<Rightarrow> error + 's) \<Rightarrow> 'a list \<Rightarrow> 's \<Rightarrow> error + 's" where
  "fold_m f [] s = Inr s"
| "fold_m f (x # xs) s = (case f x s of Inl e \<Rightarrow> Inl e | Inr s' \<Rightarrow> fold_m f xs s')"

section \<open>Board\<close>

definition back_rank :: "kind list" where
  "back_rank = [Rook, Knight, Bishop, Queen, King, Bishop, Knight, Rook]"

definition initial_board :: board where
  "initial_board =
     [map (\<lambda>p. Some (Black, p)) back_rank, replicate 8 (Some (Black, Pawn))]
     @ replicate 4 (replicate 8 None)
     @ [replicate 8 (Some (White, Pawn)), map (\<lambda>p. Some (White, p)) back_rank]"

definition in_bounds :: "int \<Rightarrow> int \<Rightarrow> bool" where
  "in_bounds r c = (0 \<le> r \<and> r < 8 \<and> 0 \<le> c \<and> c < 8)"

text \<open>\<open>range(8)\<close>, and the squares in the order of the nested loops over it.\<close>

definition range8 :: "int list" where
  "range8 = [0, 1, 2, 3, 4, 5, 6, 7]"

definition squares :: "square list" where
  "squares = List.product range8 range8"

text \<open>The test \<open>p and p[0] == color and p[1] == typ\<close>.\<close>

definition holds :: "piece option \<Rightarrow> color \<Rightarrow> kind \<Rightarrow> bool" where
  "holds p col k = (case p of None \<Rightarrow> False | Some q \<Rightarrow> fst q = col \<and> snd q = k)"

definition find_king :: "board \<Rightarrow> color \<Rightarrow> error + square option" where
  "find_king board col =
     first_m (\<lambda>(r, c). case cell board r c of
                          Inl e \<Rightarrow> Inl e
                        | Inr p \<Rightarrow> Inr (holds p col King)) squares"

definition copy_board :: "board \<Rightarrow> board" where
  "copy_board board = map (\<lambda>row. row) board"

section \<open>Coordinates\<close>

text \<open>
  Text is modelled by 8-bit characters. \<open>lower\<close> is Python's \<open>str.lower\<close> on one such
  character, \<open>digit_value\<close> is \<open>int\<close> on a one-character string (ValueError unless the
  character is a decimal digit), \<open>chr_py\<close> is \<open>chr\<close> (a code point from 256 on has no
  8-bit character and is reported as ValueError too) and \<open>str_int\<close> is \<open>str\<close> on an
  integer.
\<close>

definition lower :: "char \<Rightarrow> char" where
  "lower ch =
     (let n = of_char ch :: nat
      in if (65 \<le> n \<and> n \<le> 90) \<or> (192 \<le> n \<and> n \<le> 222 \<and> n \<noteq> 215)
         then char_of (n + 32) else ch)"

definition ord :: "char \<Rightarrow> int" where
  "ord ch = int (of_char ch)"

definition digit_value :: "char \<Rightarrow> error + int" where
  "digit_value ch =
     (if 48 \<le> ord ch \<and> ord ch \<le> 57 then Inr (ord ch - 48) else Inl ValueError)"

definition chr_py :: "int \<Rightarrow> error + char" where
  "chr_py n = (if 0 \<le> n \<and> n < 256 then Inr (char_of (nat n)) else Inl ValueError)"

fun str_nat :: "nat \<Rightarrow> string" where
  "str_nat n =
     (if n < 10 then [char_of (48 + n)] else str_nat (n div 10) @ [char_of (48 + n mod 10)])"

definition str_int :: "int \<Rightarrow> string" where
  "str_int i = (if i < 0 then CHR ''-'' # str_nat (nat (- i)) else str_nat (nat i))"

definition algebraic_to_rc :: "string \<Rightarrow> error + square" where
  "algebraic_to_rc s =
     (case getitem s 0 of
        Inl e \<Rightarrow> Inl e
      | Inr ch0 \<Rightarrow>
          (let file = ord (lower ch0) - ord (CHR ''a'')
           in case getitem s 1 of
                Inl e \<Rightarrow> Inl e
              | Inr ch1 \<Rightarrow>
                  (case digit_value ch1 of
                     Inl e \<Rightarrow> Inl e
                   | Inr d \<Rightarrow> (let rank = d - 1 in Inr (7 - rank, file)))))"

definition rc_to_algebraic :: "int \<Rightarrow> int \<Rightarrow> error + string" where
  "rc_to_algebraic r c =
     (case chr_py (c + ord (CHR ''a'')) of
        Inl e \<Rightarrow> Inl e
      | Inr file \<Rightarrow> (let rank = str_int (8 - r) in Inr (file # rank)))"

section \<open>Attack detector\<close>

definition knight_offsets :: "(int \<times> int) list" where
  "knight_offsets = [(2,1),(1,2),(-1,2),(-2,1),(-2,-1),(-1,-2),(1,-2),(2,-1)]"

definition diag_dirs :: "(int \<times> int) list" where
  "diag_dirs = [(1,1),(1,-1),(-1,1),(-1,-1)]"

definition orth_dirs :: "(int \<times> int) list" where
  "orth_dirs = [(1,0),(-1,0),(0,1),(0,-1)]"

text \<open>The pairs (dr, dc) of the nested loops over \<open>(-1, 0, 1)\<close>.\<close>

definition king_offsets :: "(int \<times> int) list" where
  "king_offsets = List.product [-1, 0, 1] [-1, 0, 1]"

text \<open>
  The guarded read that the pawn, knight and king sections share:
  \<open>if in_bounds(rr, cc): p = board[rr][cc]; if p and p[0] == by_color and p[1] == k\<close>.
\<close>

definition probe :: "board \<Rightarrow> int \<Rightarrow> int \<Rightarrow> color \<Rightarrow> kind \<Rightarrow> error + bool" where
  "probe board rr cc by_color k =
     (if in_bounds rr cc
      then (case cell board rr cc of Inl e \<Rightarrow> Inl e | Inr p \<Rightarrow> Inr (holds p by_color k))
      else Inr False)"

text \<open>
  The \<open>while in_bounds(rr, cc)\<close> loop of one ray: it stops at the first piece, which
  attacks when it has the colour and is of kind \<open>k\<close> or a queen. With the step (0, 0) the
  source would stay on an empty square forever.
\<close>

function ray_attack ::
  "board \<Rightarrow> color \<Rightarrow> kind \<Rightarrow> int \<Rightarrow> int \<Rightarrow> int \<Rightarrow> int \<Rightarrow> error + bool" where
  "ray_attack board by_color k dr dc rr cc =
     (if in_bounds rr cc
      then (case cell board rr cc of
              Inl e \<Rightarrow> Inl e
            | Inr None \<Rightarrow>
                if dr = 0 \<and> dc = 0 then Inl NonTermination
                else ray_attack board by_color k dr dc (rr + dr) (cc + dc)
            | Inr (Some p) \<Rightarrow> Inr (fst p = by_color \<and> (snd p = k \<or> snd p = Queen)))
      else Inr False)"
  by pat_completeness auto
termination
  by (relation "measure (\<lambda>(board, by_color, k, dr, dc, rr, cc).
        if 0 < dr then nat (8 - rr) else if dr < 0 then nat (rr + 1)
        else if 0 < dc then nat (8 - cc) else nat (cc + 1))")
     (auto simp: in_bounds_def)

declare ray_attack.simps [simp del]

definition is_square_attacked :: "board \<Rightarrow> int \<Rightarrow> int \<Rightarrow> color \<Rightarrow> error + bool" where
  "is_square_attacked board r c by_color =
     (let dir = (if by_color = White then - 1 else 1) in
      case any_m (\<lambda>dc. probe board (r - dir) (c + dc) by_color Pawn) [- 1, 1] of
        Inl e \<Rightarrow> Inl e
      | Inr True \<Rightarrow> Inr True
      | Inr False \<Rightarrow>
      (case any_m (\<lambda>(dr, dc). probe board (r + dr) (c + dc) by_color Knight)
              knight_offsets of
        Inl e \<Rightarrow> Inl e
      | Inr True \<Rightarrow> Inr True
      | Inr False \<Rightarrow>
      (case any_m (\<lambda>(dr, dc). ray_attack board by_color Bishop dr dc (r + dr) (c + dc))
              diag_dirs of
        Inl e \<Rightarrow> Inl e
      | Inr True \<Rightarrow> Inr True
      | Inr False \<Rightarrow>
      (case any_m (\<lambda>(dr, dc). ray_attack board by_color Rook dr dc (r + dr) (c + dc))
              orth_dirs of
        Inl e \<Rightarrow> Inl e
      | Inr True \<Rightarrow> Inr True
      | Inr False \<Rightarrow>
          any_m (\<lambda>(dr, dc). if dr = 0 \<and> dc = 0 then Inr False
                            else probe board (r + dr) (c + dc) by_color King)
            king_offsets))))"

section \<open>Move generator\<close>

definition enemy_of :: "color \<Rightarrow> color" where
  "enemy_of col = (if col = Black then White else Black)"

text \<open>
  The nested function \<open>add_move\<close>: it copies the board, moves the piece of (r, c) to
  (rr, cc) on the copy, looks for the mover's king there and appends (rr, cc) to
  \<open>moves\<close> unless the king is attacked. Unpacking the \<open>None\<close> of a missing king
  raises TypeError. The list \<open>moves\<close> that the source appends to is passed and returned.
\<close>

definition add_move ::
  "board \<Rightarrow> int \<Rightarrow> int \<Rightarrow> color \<Rightarrow> square list \<Rightarrow> int \<Rightarrow> int \<Rightarrow> error + square list" where
  "add_move board r c col moves rr cc =
     (let b2 = copy_board board in
      case cell b2 r c of
        Inl e \<Rightarrow> Inl e
      | Inr p \<Rightarrow>
      (case set_cell b2 rr cc p of
        Inl e \<Rightarrow> Inl e
      | Inr b3 \<Rightarrow>
      (case set_cell b3 r c None of
        Inl e \<Rightarrow> Inl e
      | Inr b4 \<Rightarrow>
      (case find_king b4 col of
        Inl e \<Rightarrow> Inl e
      | Inr None \<Rightarrow> Inl TypeError
      | Inr (Some (kr, kc)) \<Rightarrow>
      (let enemy = enemy_of col in
       case is_square_attacked b4 kr kc enemy of
         Inl e \<Rightarrow> Inl e
       | Inr attacked \<Rightarrow> Inr (if \<not> attacked then moves @ [(rr, cc)] else moves))))))"

text \<open>
  The test \<open>board[rr][cc] is None or board[rr][cc][0] != color\<close> of the knight and king
  sections (and, without its first half, of the pawn captures).
\<close>

definition free_or_enemy :: "piece option \<Rightarrow> color \<Rightarrow> bool" where
  "free_or_enemy p col = (case p of None \<Rightarrow> True | Some q \<Rightarrow> fst q \<noteq> col)"

definition step_move ::
  "board \<Rightarrow> int \<Rightarrow> int \<Rightarrow> color \<Rightarrow> int \<times> int \<Rightarrow> square list \<Rightarrow> error + square list" where
  "step_move board r c col d moves =
     (let rr = r + fst d; cc = c + snd d in
      if in_bounds rr cc
      then (case cell board rr cc of
              Inl e \<Rightarrow> Inl e
            | Inr p \<Rightarrow> if free_or_enemy p col then add_move board r c col moves rr cc
                       else Inr moves)
      else Inr moves)"

text \<open>The \<open>while in_bounds(rr, cc)\<close> loop of a bishop, rook or queen along one ray.\<close>

function slide ::
  "board \<Rightarrow> int \<Rightarrow> int \<Rightarrow> color \<Rightarrow> int \<Rightarrow> int \<Rightarrow> int \<Rightarrow> int \<Rightarrow> square list
   \<Rightarrow> error + square list" where
  "slide board r c col dr dc rr cc moves =
     (if in_bounds rr cc
      then (case cell board rr cc of
              Inl e \<Rightarrow> Inl e
            | Inr None \<Rightarrow>
                (case add_move board r c col moves rr cc of
                   Inl e \<Rightarrow> Inl e
                 | Inr moves' \<Rightarrow>
                     if dr = 0 \<and> dc = 0 then Inl NonTermination
                     else slide board r c col dr dc (rr + dr) (cc + dc) moves')
            | Inr (Some q) \<Rightarrow>
                if fst q \<noteq> col then add_move board r c col moves rr cc else Inr moves)
      else Inr moves)"
  by pat_completeness auto
termination
  by (relation "measure (\<lambda>(board, r, c, col, dr, dc, rr, cc, moves).
        if 0 < dr then nat (8 - rr) else if dr < 0 then nat (rr + 1)
        else if 0 < dc then nat (8 - cc) else nat (cc + 1))")
     (auto simp: in_bounds_def)

declare slide.simps [simp del]

text \<open>
  The pawn section: \<open>dir\<close> and \<open>start_row\<close>, then the single and double push, then
  the body of the loop over the two capture columns.
\<close>

definition pawn_dir :: "color \<Rightarrow> int" where
  "pawn_dir col = (if col = White then - 1 else 1)"

definition pawn_start_row :: "color \<Rightarrow> int" where
  "pawn_start_row col = (if col = White then 6 else 1)"

definition pawn_pushes ::
  "board \<Rightarrow> int \<Rightarrow> int \<Rightarrow> color \<Rightarrow> square list \<Rightarrow> error + square list" where
  "pawn_pushes board r c col moves =
     (let dir = pawn_dir col; start_row = pawn_start_row col; rr = r + dir; cc = c in
      if in_bounds rr cc
      then (case cell board rr cc of
              Inl e \<Rightarrow> Inl e
            | Inr (Some q) \<Rightarrow> Inr moves
            | Inr None \<Rightarrow>
                (case add_move board r c col moves rr cc of
                   Inl e \<Rightarrow> Inl e
                 | Inr moves1 \<Rightarrow>
                     (let rr2 = r + 2 * dir in
                      if r = start_row
                      then (case cell board rr2 cc of
                              Inl e \<Rightarrow> Inl e
                            | Inr (Some q) \<Rightarrow> Inr moves1
                            | Inr None \<Rightarrow> add_move board r c col moves1 rr2 cc)
                      else Inr moves1)))
      else Inr moves)"

definition pawn_capture ::
  "board \<Rightarrow> int \<Rightarrow> int \<Rightarrow> color \<Rightarrow> int \<Rightarrow> square list \<Rightarrow> error + square list" where
  "pawn_capture board r c col dc moves =
     (let dir = pawn_dir col; rr = r + dir; cc = c + dc in
      if in_bounds rr cc
      then (case cell board rr cc of
              Inl e \<Rightarrow> Inl e
            | Inr None \<Rightarrow> Inr moves
            | Inr (Some q) \<Rightarrow>
                if fst q \<noteq> col then add_move board r c col moves rr cc else Inr moves)
      else Inr moves)"

definition pawn_moves ::
  "board \<Rightarrow> int \<Rightarrow> int \<Rightarrow> color \<Rightarrow> square list \<Rightarrow> error + square list" where
  "pawn_moves board r c col moves =
     (case pawn_pushes board r c col moves of
        Inl e \<Rightarrow> Inl e
      | Inr moves1 \<Rightarrow> fold_m (pawn_capture board r c col) [- 1, 1] moves1)"

text \<open>The parameter \<open>last_move\<close> of the source is never read and is left out.\<close>

definition legal_moves_from :: "board \<Rightarrow> int \<Rightarrow> int \<Rightarrow> color \<Rightarrow> error + square list" where
  "legal_moves_from board r c col =
     (case cell board r c of
        Inl e \<Rightarrow> Inl e
      | Inr None \<Rightarrow> Inr []
      | Inr (Some p) \<Rightarrow>
          if fst p \<noteq> col then Inr []
          else (let typ = snd p; moves = [] in
            if typ = Pawn then pawn_moves board r c col moves
            else if typ = Knight then
              fold_m (step_move board r c col) knight_offsets moves
            else if typ = Bishop \<or> typ = Rook \<or> typ = Queen then
              (let dirs = [];
                   dirs = (if typ = Bishop \<or> typ = Queen then dirs @ diag_dirs else dirs);
                   dirs = (if typ = Rook \<or> typ = Queen then dirs @ orth_dirs else dirs)
               in fold_m (\<lambda>(dr, dc). slide board r c col dr dc (r + dr) (c + dc)) dirs moves)
            else if typ = King then
              fold_m (\<lambda>d ms. if fst d = 0 \<and> snd d = 0 then Inr ms
                              else step_move board r c col d ms) king_offsets moves
            else Inr moves))"

definition all_legal_moves :: "board \<Rightarrow> color \<Rightarrow> error + (square \<times> square) list" where
  "all_legal_moves board col =
     fold_m (\<lambda>(r, c) res.
        case cell board r c of
          Inl e \<Rightarrow> Inl e
        | Inr None \<Rightarrow> Inr res
        | Inr (Some p) \<Rightarrow>
            if fst p = col
            then (case legal_moves_from board r c col of
                    Inl e \<Rightarrow> Inl e
                  | Inr ms \<Rightarrow> Inr (res @ map (\<lambda>(rr, cc). ((r, c), (rr, cc))) ms))
            else Inr res) squares []"

section \<open>Move executor\<close>

text \<open>
  The source changes the board in place and returns the pair (ok, message). The model
  returns the board as the caller sees it after the call, together with that pair; an
  uncaught exception is \<open>Inl\<close>.
\<close>

definition move :: "board \<Rightarrow> string \<Rightarrow> string \<Rightarrow> color \<Rightarrow> error + (board \<times> bool \<times> string)" where
  "move board src dst col =
     (case algebraic_to_rc src of
        Inl e \<Rightarrow> Inl e
      | Inr (r1, c1) \<Rightarrow>
      (case algebraic_to_rc dst of
        Inl e \<Rightarrow> Inl e
      | Inr (r2, c2) \<Rightarrow>
          if \<not> in_bounds r1 c1 \<or> \<not> in_bounds r2 c2
          then Inr (board, False, ''Out of bounds.'')
          else
      (case cell board r1 c1 of
        Inl e \<Rightarrow> Inl e
      | Inr None \<Rightarrow> Inr (board, False, ''No piece of yours on source.'')
      | Inr (Some p) \<Rightarrow>
          if fst p \<noteq> col then Inr (board, False, ''No piece of yours on source.'')
          else
      (case legal_moves_from board r1 c1 col of
        Inl e \<Rightarrow> Inl e
      | Inr ms \<Rightarrow>
          if (r2, c2) \<notin> set ms then Inr (board, False, ''Illegal move.'')
          else
      (case cell board r1 c1 of
        Inl e \<Rightarrow> Inl e
      | Inr piece \<Rightarrow>
      (case set_cell board r1 c1 None of
        Inl e \<Rightarrow> Inl e
      | Inr board1 \<Rightarrow>
      (case piece of
        None \<Rightarrow> Inl TypeError
      | Some q \<Rightarrow>
      (case (if snd q = Pawn \<and> (r2 = 0 \<or> r2 = 7)
             then set_cell board1 r2 c2 (Some (col, Queen))
             else set_cell board1 r2 c2 piece) of
        Inl e \<Rightarrow> Inl e
      | Inr board2 \<Rightarrow> Inr (board2, True, ''OK'')))))))))"

section \<open>Game state evaluator\<close>

definition in_check :: "board \<Rightarrow> color \<Rightarrow> error + bool" where
  "in_check board col =
     (case find_king board col of
        Inl e \<Rightarrow> Inl e
      | Inr None \<Rightarrow> Inl TypeError
      | Inr (Some (kr, kc)) \<Rightarrow>
          (let enemy = enemy_of col in is_square_attacked board kr kc enemy))"

definition is_checkmate :: "board \<Rightarrow> color \<Rightarrow> error + bool" where
  "is_checkmate board col =
     (case in_check board col of
        Inl e \<Rightarrow> Inl e
      | Inr chk \<Rightarrow>
          if \<not> chk then Inr False
          else (case all_legal_moves board col of
                  Inl e \<Rightarrow> Inl e
                | Inr ms \<Rightarrow> Inr (length ms = 0)))"

definition is_stalemate :: "board \<Rightarrow> color \<Rightarrow> error + bool" where
  "is_stalemate board col =
     (case in_check board col of
        Inl e \<Rightarrow> Inl e
      | Inr chk \<Rightarrow>
          if chk then Inr False
          else (case all_legal_moves board col of
                  Inl e \<Rightarrow> Inl e
                | Inr ms \<Rightarrow> Inr (length ms = 0)))"

section \<open>Positions of the scenarios\<close>

text \<open>
  The boards after 1. f3, 1... e5, 2. g4 and 2... Qh4 from the initial position, written
  out square by square.
\<close>

definition board_f3 :: board where
  "board_f3 =
     [[Some (Black, Rook), Some (Black, Knight), Some (Black, Bishop), Some (Black, Queen), Some (Black, King), Some (Black, Bishop), Some (Black, Knight), Some (Black, Rook)],
      [Some (Black, Pawn), Some (Black, Pawn), Some (Black, Pawn), Some (Black, Pawn), Some (Black, Pawn), Some (Black, Pawn), Some (Black, Pawn), Some (Black, Pawn)],
      [None, None, None, None, None, None, None, None],
      [None, None, None, None, None, None, None, None],
      [None, None, None, None, None, None, None, None],
      [None, None, None, None, None, Some (White, Pawn), None, None],
      [Some (White, Pawn), Some (White, Pawn), Some (White, Pawn), Some (White, Pawn), Some (White, Pawn), None, Some (White, Pawn), Some (White, Pawn)],
      [Some (White, Rook), Some (White, Knight), Some (White, Bishop), Some (White, Queen), Some (White, King), Some (White, Bishop), Some (White, Knight), Some (White, Rook)]]"

definition board_e5 :: board where
  "board_e5 =
     [[Some (Black, Rook), Some (Black, Knight), Some (Black, Bishop), Some (Black, Queen), Some (Black, King), Some (Black, Bishop), Some (Black, Knight), Some (Black, Rook)],
      [Some (Black, Pawn), Some (Black, Pawn), Some (Black, Pawn), Some (Black, Pawn), None, Some (Black, Pawn), Some (Black, Pawn), Some (Black, Pawn)],
      [None, None, None, None, None, None, None, None],
      [None, None, None, None, Some (Black, Pawn), None, None, None],
      [None, None, None, None, None, None, None, None],
      [None, None, None, None, None, Some (White, Pawn), None, None],
      [Some (White, Pawn), Some (White, Pawn), Some (White, Pawn), Some (White, Pawn), Some (White, Pawn), None, Some (White, Pawn), Some (White, Pawn)],
      [Some (White, Rook), Some (White, Knight), Some (White, Bishop), Some (White, Queen), Some (White, King), Some (White, Bishop), Some (White, Knight), Some (White, Rook)]]"

definition board_g4 :: board where
  "board_g4 =
     [[Some (Black, Rook), Some (Black, Knight), Some (Black, Bishop), Some (Black, Queen), Some (Black, King), Some (Black, Bishop), Some (Black, Knight), Some (Black, Rook)],
      [Some (Black, Pawn), Some (Black, Pawn), Some (Black, Pawn), Some (Black, Pawn), None, Some (Black, Pawn), Some (Black, Pawn), Some (Black, Pawn)],
      [None, None, None, None, None, None, None, None],
      [None, None, None, None, Some (Black, Pawn), None, None, None],
      [None, None, None, None, None, None, Some (White, Pawn), None],
      [None, None, None, None, None, Some (White, Pawn), None, None],
      [Some (White, Pawn), Some (White, Pawn), Some (White, Pawn), Some (White, Pawn), Some (White, Pawn), None, None, Some (White, Pawn)],
      [Some (White, Rook), Some (White, Knight), Some (White, Bishop), Some (White, Queen), Some (White, King), Some (White, Bishop), Some (White, Knight), Some (White, Rook)]]"

definition board_h4 :: board where
  "board_h4 =
     [[Some (Black, Rook), Some (Black, Knight), Some (Black, Bishop), None, Some (Black, King), Some (Black, Bishop), Some (Black, Knight), Some (Black, Rook)],
      [Some (Black, Pawn), Some (Black, Pawn), Some (Black, Pawn), Some (Black, Pawn), None, Some (Black, Pawn), Some (Black, Pawn), Some (Black, Pawn)],
      [None, None, None, None, None, None, None, None],
      [None, None, None, None, Some (Black, Pawn), None, None, None],
      [None, None, None, None, None, None, Some (White, Pawn), Some (Black, Queen)],
      [None, None, None, None, None, Some (White, Pawn), None, None],
      [Some (White, Pawn), Some (White, Pawn), Some (White, Pawn), Some (White, Pawn), Some (White, Pawn), None, None, Some (White, Pawn)],
      [Some (White, Rook), Some (White, Knight), Some (White, Bishop), Some (White, Queen), Some (White, King), Some (White, Bishop), Some (White, Knight), Some (White, Rook)]]"

section \<open>Auxiliary definitions for the proofs\<close>

text \<open>The file letter of column \<open>f\<close> and the digit of rank \<open>n\<close>.\<close>

definition file_char :: "int \<Rightarrow> char" where
  "file_char f = ''abcdefgh'' ! nat f"

definition rank_char :: "int \<Rightarrow> char" where
  "rank_char n = ''12345678'' ! nat (n - 1)"

text \<open>
  The boards the program builds have eight rows of eight squares. On such a board an
  in-bounds read is \<open>piece_at\<close> and an in-bounds write is \<open>put\<close>.
\<close>

definition wf_board :: "board \<Rightarrow> bool" where
  "wf_board b = (length b = 8 \<and> (\<forall>row \<in> set b. length row = 8))"

definition piece_at :: "board \<Rightarrow> int \<Rightarrow> int \<Rightarrow> piece option" where
  "piece_at b r c = b ! nat r ! nat c"

definition put :: "board \<Rightarrow> int \<Rightarrow> int \<Rightarrow> piece option \<Rightarrow> board" where
  "put b r c v = b[nat r := (b ! nat r)[nat c := v]]"

text \<open>
  What \<open>is_square_attacked\<close> computes on an 8 by 8 board: the disjunction of its five
  sections.
\<close>

definition attacked :: "board \<Rightarrow> int \<Rightarrow> int \<Rightarrow> color \<Rightarrow> bool" where
  "attacked b r c by_color =
     (let dir = (if by_color = White then - 1 else 1) in
      (\<exists>dc \<in> set [- 1, 1]. in_bounds (r - dir) (c + dc)
          \<and> piece_at b (r - dir) (c + dc) = Some (by_color, Pawn))
      \<or> (\<exists>d \<in> set knight_offsets. in_bounds (r + fst d) (c + snd d)
          \<and> piece_at b (r + fst d) (c + snd d) = Some (by_color, Knight))
      \<or> (\<exists>d \<in> set diag_dirs.
            ray_attack b by_color Bishop (fst d) (snd d) (r + fst d) (c + snd d) = Inr True)
      \<or> (\<exists>d \<in> set orth_dirs.
            ray_attack b by_color Rook (fst d) (snd d) (r + fst d) (c + snd d) = Inr True)
      \<or> (\<exists>d \<in> set king_offsets. d \<noteq> (0, 0) \<and> in_bounds (r + fst d) (c + snd d)
          \<and> piece_at b (r + fst d) (c + snd d) = Some (by_color, King)))"

text \<open>
  The hypothetical board of \<open>add_move\<close>: the piece of (r, c) put on (rr, cc) and the
  source emptied.
\<close>

definition sim :: "board \<Rightarrow> int \<Rightarrow> int \<Rightarrow> int \<Rightarrow> int \<Rightarrow> board" where
  "sim b r c rr cc = put (put b rr cc (piece_at b r c)) r c None"

definition has_king :: "board \<Rightarrow> color \<Rightarrow> bool" where
  "has_king b col = (\<exists>sq \<in> set squares. piece_at b (fst sq) (snd sq) = Some (col, King))"

text \<open>
  The destinations the generator tries for a piece of kind \<open>k\<close> on (r, c), before the
  self-check filter, read off its loops; \<open>good\<close> is the invariant of the list of moves.
\<close>

definition slide_dirs :: "kind \<Rightarrow> (int \<times> int) list" where
  "slide_dirs k =
     (if k = Bishop \<or> k = Queen then diag_dirs else [])
     @ (if k = Rook \<or> k = Queen then orth_dirs else [])"

definition pseudo :: "board \<Rightarrow> int \<Rightarrow> int \<Rightarrow> color \<Rightarrow> kind \<Rightarrow> int \<Rightarrow> int \<Rightarrow> bool" where
  "pseudo b r c col k rr cc =
     (in_bounds rr cc \<and>
      (case k of
         Pawn \<Rightarrow>
           (let dir = pawn_dir col in
            (rr = r + dir \<and> cc = c \<and> piece_at b rr cc = None)
            \<or> (rr = r + 2 * dir \<and> cc = c \<and> r = pawn_start_row col
               \<and> piece_at b (r + dir) c = None \<and> piece_at b rr cc = None)
            \<or> (rr = r + dir \<and> (cc = c - 1 \<or> cc = c + 1)
               \<and> (\<exists>q. piece_at b rr cc = Some q \<and> fst q \<noteq> col)))
       | Knight \<Rightarrow>
           (rr - r, cc - c) \<in> set knight_offsets \<and> free_or_enemy (piece_at b rr cc) col
       | King \<Rightarrow>
           (rr - r, cc - c) \<in> set king_offsets \<and> (rr - r, cc - c) \<noteq> (0, 0)
           \<and> free_or_enemy (piece_at b rr cc) col
       | _ \<Rightarrow>
           (\<exists>d \<in> set (slide_dirs k). \<exists>n::nat. 1 \<le> n
              \<and> rr = r + int n * fst d \<and> cc = c + int n * snd d
              \<and> (\<forall>j::nat. 1 \<le> j \<and> j < n \<longrightarrow>
                    in_bounds (r + int j * fst d) (c + int j * snd d)
                    \<and> piece_at b (r + int j * fst d) (c + int j * snd d) = None))
           \<and> free_or_enemy (piece_at b rr cc) col))"

definition good :: "board \<Rightarrow> int \<Rightarrow> int \<Rightarrow> color \<Rightarrow> kind \<Rightarrow> square list \<Rightarrow> bool" where
  "good b r c col k ms =
     (\<forall>m \<in> set ms. pseudo b r c col k (fst m) (snd m)
                   \<and> in_check (sim b r c (fst m) (snd m)) col = Inr False)"

text \<open>
  Two boards look the same to \<open>in_check\<close> for a colour when they agree on which squares
  are empty, on where that colour's king stands and on the enemy's pieces.
\<close>

definition same_view :: "board \<Rightarrow> board \<Rightarrow> color \<Rightarrow> bool" where
  "same_view b b' col =
     (\<forall>r c. in_bounds r c \<longrightarrow>
        (piece_at b r c = None \<longleftrightarrow> piece_at b' r c = None)
        \<and> (piece_at b r c = Some (col, King) \<longleftrightarrow> piece_at b' r c = Some (col, King))
        \<and> (\<forall>k. piece_at b r c = Some (enemy_of col, k)
               \<longleftrightarrow> piece_at b' r c = Some (enemy_of col, k)))"

text \<open>
  The board the executor leaves after a move it accepts, and the moves of
  \<open>all_legal_moves\<close> as pairs of a source holding a piece of the colour and one of
  its destinations.
\<close>

definition promoted :: "color \<Rightarrow> kind \<Rightarrow> int \<Rightarrow> piece option" where
  "promoted col k r2 = (if k = Pawn \<and> (r2 = 0 \<or> r2 = 7) then Some (col, Queen) else Some (col, k))"

definition moved :: "board \<Rightarrow> int \<Rightarrow> int \<Rightarrow> int \<Rightarrow> int \<Rightarrow> color \<Rightarrow> kind \<Rightarrow> board" where
  "moved b r1 c1 r2 c2 col k = put (put b r1 c1 None) r2 c2 (promoted col k r2)"

definition from_generator :: "board \<Rightarrow> color \<Rightarrow> square \<times> square \<Rightarrow> bool" where
  "from_generator b col mv =
     (in_bounds (fst (fst mv)) (snd (fst mv))
      \<and> (\<exists>k ms. piece_at b (fst (fst mv)) (snd (fst mv)) = Some (col, k)
            \<and> legal_moves_from b (fst (fst mv)) (snd (fst mv)) col = Inr ms
            \<and> snd mv \<in> set ms))"

text \<open>
  A position with a white pawn on a7 and the two kings on e8 and e1, and the position
  after the pawn has moved to a8.
\<close>

definition promo_board :: board where
  "promo_board =
     [[None, None, None, None, Some (Black, King), None, None, None],
      [Some (White, Pawn), None, None, None, None, None, None, None],
      [None, None, None, None, None, None, None, None],
      [None, None, None, None, None, None, None, None],
      [None, None, None, None, None, None, None, None],
      [None, None, None, None, None, None, None, None],
      [None, None, None, None, None, None, None, None],
      [None, None, None, None, Some (White, King), None, None, None]]"

definition promo_after :: board where
  "promo_after =
     [[Some (White, Queen), None, None, None, Some (Black, King), None, None, None],
      [None, None, None, None, None, None, None, None],
      [None, None, None, None, None, None, None, None],
      [None, None, None, None, None, None, None, None],
      [None, None, None, None, None, None, None, None],
      [None, None, None, None, None, None, None, None],
      [None, None, None, None, None, None, None, None],
      [None, None, None, None, Some (White, King), None, None, None]]"

text \<open>
  The game: the loop of \<open>main\<close> starts from the initial board with White to move
  and, each time the executor accepts a move, passes the turn to the other colour.
  \<open>king_squares\<close> lists the squares that hold a king of a colour.
\<close>

definition next_turn :: "color \<Rightarrow> color" where
  "next_turn turn = (if turn = White then Black else White)"

inductive reachable :: "board \<Rightarrow> color \<Rightarrow> bool" where
  start: "reachable initial_board White"
| step: "reachable board turn \<Longrightarrow> move board src dst turn = Inr (board', True, msg)
         \<Longrightarrow> reachable board' (next_turn turn)"

definition king_squares :: "board \<Rightarrow> color \<Rightarrow> square list" where
  "king_squares board col =
     filter (\<lambda>(r, c). cell board r c = Inr (Some (col, King))) squares"

text \<open>The invariant of the game, for the proofs.\<close>

definition unique_king :: "board \<Rightarrow> color \<Rightarrow> bool" where
  "unique_king b col =
     (\<exists>kr kc. in_bounds kr kc \<and> piece_at b kr kc = Some (col, King)
        \<and> (\<forall>x y. in_bounds x y \<and> piece_at b x y = Some (col, King) \<longrightarrow> x = kr \<and> y = kc))"

definition game_inv :: "board \<Rightarrow> color \<Rightarrow> bool" where
  "game_inv b turn =
     (wf_board b \<and> unique_king b White \<and> unique_king b Black
      \<and> in_check b (enemy_of turn) = Inr False)"

section \<open>Coordinate conversion\<close>

lemma getitem_0 [simp]: "getitem (x # xs) 0 = Inr x"
  by (simp add: getitem_def py_index_def)

lemma getitem_1 [simp]: "getitem (x # y # xs) 1 = Inr y"
  by (simp add: getitem_def py_index_def)

lemma int_below_8: "0 \<le> (i::int) \<Longrightarrow> i < 8 \<Longrightarrow> i \<in> {0, 1, 2, 3, 4, 5, 6, 7}"
  by auto

lemma file_letter:
  assumes "0 \<le> (f::int)" "f < 8"
  shows "ord (lower (file_char f)) - ord (CHR ''a'') = f"
    and "ord (lower (''ABCDEFGH'' ! nat f)) - ord (CHR ''a'') = f"
    and "chr_py (f + ord (CHR ''a'')) = Inr (file_char f)"
  using int_below_8 [OF assms]
  by (auto simp: lower_def ord_def chr_py_def file_char_def char_of_def bit_Suc_0_iff)

lemma rank_digit:
  assumes "1 \<le> (n::int)" "n \<le> 8"
  shows "digit_value (rank_char n) = Inr n"
    and "str_int n = [rank_char n]"
  using int_below_8 [of "n - 1"] assms
  by (auto simp: digit_value_def ord_def str_int_def rank_char_def char_of_def bit_Suc_0_iff)

lemma algebraic_to_rc_Cons:
  "algebraic_to_rc (a # d # rest) =
     (case digit_value d of
        Inl e \<Rightarrow> Inl e
      | Inr n \<Rightarrow> Inr (8 - n, ord (lower a) - ord (CHR ''a'')))"
  by (simp add: algebraic_to_rc_def split: sum.splits)

lemma rc_round_trip:
  assumes "in_bounds r c"
  shows "rc_to_algebraic r c = Inr [file_char c, rank_char (8 - r)]"
    and "algebraic_to_rc [file_char c, rank_char (8 - r)] = Inr (r, c)"
proof -
  from assms have c: "0 \<le> c" "c < 8" and r: "1 \<le> 8 - r" "8 - r \<le> 8"
    by (auto simp: in_bounds_def)
  show "rc_to_algebraic r c = Inr [file_char c, rank_char (8 - r)]"
    by (simp add: rc_to_algebraic_def file_letter(3) [OF c] rank_digit(2) [OF r])
  show "algebraic_to_rc [file_char c, rank_char (8 - r)] = Inr (r, c)"
    by (simp add: algebraic_to_rc_Cons file_letter(1) [OF c] rank_digit(1) [OF r])
qed

text \<open>
  C9. A file letter, lower or upper case, is mapped to its column (a to 0, ..., h to 7)
  and the rank digit \<open>n\<close> to the row \<open>8 - n\<close>, whatever follows the two characters;
  and turning an in-bounds square into text with \<open>rc_to_algebraic\<close> and back with
  \<open>algebraic_to_rc\<close> gives the square again.
\<close>

theorem coordinate_conversion:
  "0 \<le> f \<and> f < 8 \<and> 1 \<le> n \<and> n \<le> 8 \<longrightarrow>
     algebraic_to_rc ((''abcdefgh'' ! nat f) # (''12345678'' ! nat (n - 1)) # rest)
       = Inr (8 - n, f) \<and>
     algebraic_to_rc ((''ABCDEFGH'' ! nat f) # (''12345678'' ! nat (n - 1)) # rest)
       = Inr (8 - n, f) \<and>
     (\<exists>s. rc_to_algebraic (8 - n) f = Inr s \<and> algebraic_to_rc s = Inr (8 - n, f))"
proof (intro impI conjI)
  assume a: "0 \<le> f \<and> f < 8 \<and> 1 \<le> n \<and> n \<le> 8"
  then have f: "0 \<le> f" "f < 8" and n: "1 \<le> n" "n \<le> 8" by auto
  show "algebraic_to_rc ((''abcdefgh'' ! nat f) # (''12345678'' ! nat (n - 1)) # rest)
       = Inr (8 - n, f)"
    using file_letter(1) [OF f] rank_digit(1) [OF n]
    by (simp add: algebraic_to_rc_Cons file_char_def rank_char_def)
  show "algebraic_to_rc ((''ABCDEFGH'' ! nat f) # (''12345678'' ! nat (n - 1)) # rest)
       = Inr (8 - n, f)"
    using file_letter(2) [OF f] rank_digit(1) [OF n]
    by (simp add: algebraic_to_rc_Cons rank_char_def)
  have "in_bounds (8 - n) f" using f n by (simp add: in_bounds_def)
  from rc_round_trip [OF this]
  show "\<exists>s. rc_to_algebraic (8 - n) f = Inr s \<and> algebraic_to_rc s = Inr (8 - n, f)"
    by simp
qed

theorem coordinate_conversion_witness:
  "algebraic_to_rc ''e2'' = Inr (6, 4) \<and> algebraic_to_rc ''E2'' = Inr (6, 4) \<and>
   (\<exists>s. rc_to_algebraic 6 4 = Inr s \<and> algebraic_to_rc s = Inr (6, 4))"
  using coordinate_conversion [of 4 2 "[]"] by simp

section \<open>Scenario A\<close>

text \<open>
  C8. From the initial board the executor accepts f2-f3 for White, e7-e5 for Black,
  g2-g4 for White and d8-h4 for Black, and on the board they leave White is checkmated.
\<close>

theorem fools_mate:
  "move initial_board ''f2'' ''f3'' White = Inr (board_f3, True, ''OK'') \<and>
   move board_f3 ''e7'' ''e5'' Black = Inr (board_e5, True, ''OK'') \<and>
   move board_e5 ''g2'' ''g4'' White = Inr (board_g4, True, ''OK'') \<and>
   move board_g4 ''d8'' ''h4'' Black = Inr (board_h4, True, ''OK'') \<and>
   is_checkmate board_h4 White = Inr True"
  by code_simp

theorem fools_mate_witness: "is_checkmate board_h4 White \<noteq> Inr False"
  using fools_mate by simp

section \<open>Malformed coordinate text\<close>

text \<open>
  C3. The executor does not turn every input into a structured failure: a source text of
  one character makes \<open>algebraic_to_rc\<close> read past its end, and the IndexError leaves
  \<open>move\<close> uncaught; a second character that is not a digit gives a ValueError.
\<close>

theorem move_malformed_text:
  "move initial_board ''e'' ''e4'' White = Inl IndexError \<and>
   move initial_board ''e2'' ''ex'' White = Inl ValueError"
  by code_simp

theorem move_malformed_text_witness:
  "move initial_board ''e'' ''e4'' White \<noteq> Inr (initial_board, False, ''Out of bounds.'')"
  using move_malformed_text by simp

section \<open>Rejected moves leave the board alone\<close>

text \<open>
  C10. When the executor returns a failure, the board is the one it was given, and the
  message is one of the three rejections.
\<close>

theorem move_failure_keeps_board:
  "move board src dst col = Inr (board', False, msg) \<Longrightarrow>
     board' = board \<and>
     msg \<in> {''Out of bounds.'', ''No piece of yours on source.'', ''Illegal move.''}"
  by (auto simp: move_def split: sum.splits option.splits if_splits prod.splits)

theorem move_failure_keeps_board_witness:
  "move initial_board ''e2'' ''e5'' White = Inr (initial_board, False, ''Illegal move.'') \<and>
   initial_board = initial_board \<and>
   ''Illegal move.'' \<in> {''Out of bounds.'', ''No piece of yours on source.'', ''Illegal move.''}"
proof -
  have h: "move initial_board ''e2'' ''e5'' White = Inr (initial_board, False, ''Illegal move.'')"
    by code_simp
  from move_failure_keeps_board [OF h] h show ?thesis by simp
qed

section \<open>Reading and writing an 8 by 8 board\<close>

lemma getitem_in_range:
  "0 \<le> i \<Longrightarrow> i < int (length xs) \<Longrightarrow> getitem xs i = Inr (xs ! nat i)"
  by (simp add: getitem_def py_index_def)

lemma setitem_in_range:
  "0 \<le> i \<Longrightarrow> i < int (length xs) \<Longrightarrow> setitem xs i v = Inr (xs[nat i := v])"
  by (simp add: setitem_def py_index_def)

lemma wf_row: "wf_board b \<Longrightarrow> 0 \<le> r \<Longrightarrow> r < 8 \<Longrightarrow> length (b ! nat r) = 8"
  by (simp add: wf_board_def)

lemma cell_wf:
  assumes "wf_board b" "in_bounds r c"
  shows "cell b r c = Inr (piece_at b r c)"
proof -
  from assms(2) have rc: "0 \<le> r" "r < 8" "0 \<le> c" "c < 8" by (auto simp: in_bounds_def)
  have "getitem b r = Inr (b ! nat r)"
    using assms(1) rc by (simp add: getitem_in_range wf_board_def)
  moreover have "getitem (b ! nat r) c = Inr (b ! nat r ! nat c)"
    using wf_row [OF assms(1) rc(1,2)] rc by (simp add: getitem_in_range)
  ultimately show ?thesis by (simp add: cell_def piece_at_def)
qed

lemma set_cell_wf:
  assumes "wf_board b" "in_bounds r c"
  shows "set_cell b r c v = Inr (put b r c v)"
proof -
  from assms(2) have rc: "0 \<le> r" "r < 8" "0 \<le> c" "c < 8" by (auto simp: in_bounds_def)
  have "getitem b r = Inr (b ! nat r)"
    using assms(1) rc by (simp add: getitem_in_range wf_board_def)
  moreover have "setitem (b ! nat r) c v = Inr ((b ! nat r)[nat c := v])"
    using wf_row [OF assms(1) rc(1,2)] rc by (simp add: setitem_in_range)
  moreover have "setitem b r row = Inr (b[nat r := row])" for row
    using assms(1) rc by (simp add: setitem_in_range wf_board_def)
  ultimately show ?thesis by (simp add: set_cell_def put_def)
qed

lemma wf_put:
  assumes "wf_board b" "in_bounds r c"
  shows "wf_board (put b r c v)"
proof -
  from assms(2) have rc: "0 \<le> r" "r < 8" by (auto simp: in_bounds_def)
  have "length row = 8" if "row \<in> set (put b r c v)" for row
  proof -
    from that have "row = (b ! nat r)[nat c := v] \<or> row \<in> set b"
      unfolding put_def using set_update_subset_insert [of b "nat r"] by blast
    then show ?thesis using assms(1) wf_row [OF assms(1) rc] by (auto simp: wf_board_def)
  qed
  then show ?thesis using assms(1) by (simp add: wf_board_def put_def)
qed

lemma piece_at_put:
  assumes "wf_board b" "in_bounds r c" "in_bounds r' c'"
  shows "piece_at (put b r c v) r' c' = (if r' = r \<and> c' = c then v else piece_at b r' c')"
proof -
  from assms have rc: "nat r < length b" "nat c < length (b ! nat r)" "nat r' < length b"
    and eq: "nat r' = nat r \<longleftrightarrow> r' = r" "nat c' = nat c \<longleftrightarrow> c' = c"
    using wf_row [of b r] by (auto simp: in_bounds_def wf_board_def)
  show ?thesis
    using rc eq by (auto simp: piece_at_def put_def nth_list_update)
qed

lemma copy_board_id [simp]: "copy_board b = b"
  by (simp add: copy_board_def)

lemma set_range8: "set range8 = {i. 0 \<le> i \<and> i < 8}"
  using int_below_8 by (auto simp: range8_def)

lemma in_squares: "(r, c) \<in> set squares \<longleftrightarrow> in_bounds r c"
  by (simp add: squares_def set_range8 in_bounds_def)

lemma distinct_squares: "distinct squares"
  by (simp add: squares_def range8_def distinct_product)

section \<open>Loops and the attack detector on an 8 by 8 board\<close>

lemma any_m_pure:
  "(\<And>x. x \<in> set xs \<Longrightarrow> f x = Inr (P x)) \<Longrightarrow> any_m f xs = Inr (\<exists>x \<in> set xs. P x)"
  by (induction xs) auto

lemma any_m_total:
  "(\<And>x. x \<in> set xs \<Longrightarrow> \<exists>v. f x = Inr v) \<Longrightarrow>
     any_m f xs = Inr (\<exists>x \<in> set xs. f x = Inr True)"
proof (induction xs)
  case Nil
  then show ?case by simp
next
  case (Cons x xs)
  from Cons.prems [of x] obtain v where v: "f x = Inr v" by auto
  have "any_m f xs = Inr (\<exists>x \<in> set xs. f x = Inr True)"
    using Cons.IH Cons.prems by simp
  then show ?case using v by auto
qed

lemma first_m_pure:
  "(\<And>x. x \<in> set xs \<Longrightarrow> f x = Inr (P x)) \<Longrightarrow> first_m f xs = Inr (List.find P xs)"
  by (induction xs) auto

lemma fold_m_inv:
  assumes "I s"
    and "\<And>x s. x \<in> set xs \<Longrightarrow> I s \<Longrightarrow> \<exists>s'. f x s = Inr s' \<and> I s'"
  shows "\<exists>s'. fold_m f xs s = Inr s' \<and> I s'"
  using assms
proof (induction xs arbitrary: s)
  case Nil
  then show ?case by simp
next
  case (Cons x xs)
  from Cons.prems(2) [of x s] Cons.prems(1) obtain s1 where s1: "f x s = Inr s1" "I s1"
    by auto
  from Cons.IH [OF s1(2)] Cons.prems(2) obtain s' where "fold_m f xs s1 = Inr s'" "I s'"
    by auto
  then show ?case using s1 by simp
qed

lemma holds_iff: "holds p col k \<longleftrightarrow> p = Some (col, k)"
  by (auto simp: holds_def split: option.splits)

lemma find_king_wf:
  assumes "wf_board b"
  shows "find_king b col =
           Inr (List.find (\<lambda>(r, c). piece_at b r c = Some (col, King)) squares)"
  unfolding find_king_def
  by (rule first_m_pure) (auto simp: in_squares cell_wf [OF assms] holds_iff)

lemma probe_wf:
  "wf_board b \<Longrightarrow>
     probe b rr cc by_color k =
       Inr (in_bounds rr cc \<and> piece_at b rr cc = Some (by_color, k))"
  by (simp add: probe_def cell_wf holds_iff)

lemma ray_attack_total:
  assumes "wf_board b" "dr \<noteq> 0 \<or> dc \<noteq> 0"
  shows "\<exists>v. ray_attack b by_color k dr dc rr cc = Inr v"
  using assms
proof (induction b by_color k dr dc rr cc rule: ray_attack.induct)
  case (1 board by_color k dr dc rr cc)
  show ?case
  proof (cases "in_bounds rr cc")
    case False
    then have "ray_attack board by_color k dr dc rr cc = Inr False"
      by (simp add: ray_attack.simps)
    then show ?thesis by blast
  next
    case True
    note c = cell_wf [OF "1.prems"(1) True]
    show ?thesis
    proof (cases "piece_at board rr cc")
      case None
      with "1.IH" [OF True c None] "1.prems" True c show ?thesis
        by (subst ray_attack.simps) auto
    next
      case (Some p)
      with True c show ?thesis by (subst ray_attack.simps) simp
    qed
  qed
qed

lemma attack_chain:
  assumes "m1 = Inr a1" "m2 = Inr a2" "m3 = Inr a3" "m4 = Inr a4" "m5 = Inr a5"
  shows "(case m1 of Inl e \<Rightarrow> Inl e | Inr True \<Rightarrow> Inr True | Inr False \<Rightarrow>
          (case m2 of Inl e \<Rightarrow> Inl e | Inr True \<Rightarrow> Inr True | Inr False \<Rightarrow>
          (case m3 of Inl e \<Rightarrow> Inl e | Inr True \<Rightarrow> Inr True | Inr False \<Rightarrow>
          (case m4 of Inl e \<Rightarrow> Inl e | Inr True \<Rightarrow> Inr True | Inr False \<Rightarrow> m5))))
         = Inr (a1 \<or> a2 \<or> a3 \<or> a4 \<or> a5)"
  unfolding assms by (cases a1; cases a2; cases a3; cases a4; simp)

lemma is_square_attacked_wf:
  assumes "wf_board b"
  shows "is_square_attacked b r c by_color = Inr (attacked b r c by_color)"
proof -
  note p = probe_wf [OF assms]
  let ?dir = "if by_color = White then - 1 else (1::int)"
  have pawn: "any_m (\<lambda>dc. probe b (r - ?dir) (c + dc) by_color Pawn) [- 1, 1] =
      Inr (\<exists>dc \<in> set [- 1, 1]. in_bounds (r - ?dir) (c + dc)
          \<and> piece_at b (r - ?dir) (c + dc) = Some (by_color, Pawn))"
    by (rule any_m_pure) (simp add: p)
  have knight: "any_m (\<lambda>(dr, dc). probe b (r + dr) (c + dc) by_color Knight) knight_offsets =
      Inr (\<exists>d \<in> set knight_offsets. in_bounds (r + fst d) (c + snd d)
          \<and> piece_at b (r + fst d) (c + snd d) = Some (by_color, Knight))"
    by (rule any_m_pure) (simp add: p split: prod.splits)
  have nz: "d \<in> set diag_dirs \<union> set orth_dirs \<Longrightarrow> fst d \<noteq> 0 \<or> snd d \<noteq> 0" for d
    by (auto simp: diag_dirs_def orth_dirs_def)
  have diag: "any_m (\<lambda>(dr, dc). ray_attack b by_color Bishop dr dc (r + dr) (c + dc)) diag_dirs =
      Inr (\<exists>d \<in> set diag_dirs.
            ray_attack b by_color Bishop (fst d) (snd d) (r + fst d) (c + snd d) = Inr True)"
    using any_m_total [of diag_dirs
        "\<lambda>(dr, dc). ray_attack b by_color Bishop dr dc (r + dr) (c + dc)"]
      ray_attack_total [OF assms nz]
    by (simp add: case_prod_beta)
  have orth: "any_m (\<lambda>(dr, dc). ray_attack b by_color Rook dr dc (r + dr) (c + dc)) orth_dirs =
      Inr (\<exists>d \<in> set orth_dirs.
            ray_attack b by_color Rook (fst d) (snd d) (r + fst d) (c + snd d) = Inr True)"
    using any_m_total [of orth_dirs
        "\<lambda>(dr, dc). ray_attack b by_color Rook dr dc (r + dr) (c + dc)"]
      ray_attack_total [OF assms nz]
    by (simp add: case_prod_beta)
  have king: "any_m (\<lambda>(dr, dc). if dr = 0 \<and> dc = 0 then Inr False
                            else probe b (r + dr) (c + dc) by_color King) king_offsets =
      Inr (\<exists>d \<in> set king_offsets. d \<noteq> (0, 0) \<and> in_bounds (r + fst d) (c + snd d)
          \<and> piece_at b (r + fst d) (c + snd d) = Some (by_color, King))"
    by (rule any_m_pure) (auto simp: p split: prod.splits)
  show ?thesis
    unfolding is_square_attacked_def attacked_def Let_def
    by (rule attack_chain [OF pawn knight diag orth king])
qed

section \<open>The self-check filter\<close>

lemma wf_sim: "wf_board b \<Longrightarrow> in_bounds r c \<Longrightarrow> in_bounds rr cc \<Longrightarrow> wf_board (sim b r c rr cc)"
  by (simp add: sim_def wf_put)

lemma piece_at_sim:
  "wf_board b \<Longrightarrow> in_bounds r c \<Longrightarrow> in_bounds rr cc \<Longrightarrow> in_bounds x y \<Longrightarrow>
     piece_at (sim b r c rr cc) x y =
       (if x = r \<and> y = c then None
        else if x = rr \<and> y = cc then piece_at b r c else piece_at b x y)"
  by (simp add: sim_def piece_at_put wf_put)

lemma add_move_wf:
  assumes "wf_board b" "in_bounds r c" "in_bounds rr cc"
  shows "add_move b r c col moves rr cc =
           (case in_check (sim b r c rr cc) col of
              Inl e \<Rightarrow> Inl e
            | Inr chk \<Rightarrow> Inr (if \<not> chk then moves @ [(rr, cc)] else moves))"
  using assms
  by (simp add: add_move_def in_check_def cell_wf set_cell_wf wf_put sim_def
      split: sum.splits option.splits prod.splits)

lemma has_king_iff:
  "has_king b col \<longleftrightarrow> (\<exists>r c. in_bounds r c \<and> piece_at b r c = Some (col, King))"
proof
  assume "has_king b col"
  then obtain sq where "sq \<in> set squares" "piece_at b (fst sq) (snd sq) = Some (col, King)"
    by (auto simp: has_king_def)
  then show "\<exists>r c. in_bounds r c \<and> piece_at b r c = Some (col, King)"
    using in_squares [of "fst sq" "snd sq"] by auto
next
  assume "\<exists>r c. in_bounds r c \<and> piece_at b r c = Some (col, King)"
  then obtain r c where "(r, c) \<in> set squares" "piece_at b r c = Some (col, King)"
    by (auto simp: in_squares)
  then show "has_king b col"
    unfolding has_king_def by force
qed

lemma find_king_Some:
  assumes "wf_board b" "find_king b col = Inr (Some (kr, kc))"
  shows "in_bounds kr kc \<and> piece_at b kr kc = Some (col, King)"
proof -
  from assms have "List.find (\<lambda>(r, c). piece_at b r c = Some (col, King)) squares = Some (kr, kc)"
    by (simp add: find_king_wf)
  then have "(kr, kc) \<in> set squares" "piece_at b kr kc = Some (col, King)"
    by (auto simp: find_Some_iff dest: nth_mem)
  then show ?thesis by (simp add: in_squares)
qed

lemma find_king_has_king:
  assumes "wf_board b" "has_king b col"
  shows "\<exists>kr kc. find_king b col = Inr (Some (kr, kc))"
proof -
  from assms(2) obtain sq where "sq \<in> set squares"
    "(\<lambda>(r, c). piece_at b r c = Some (col, King)) sq"
    by (auto simp: has_king_def case_prod_beta)
  then have "List.find (\<lambda>(r, c). piece_at b r c = Some (col, King)) squares \<noteq> None"
    unfolding find_None_iff by blast
  then show ?thesis by (auto simp: find_king_wf [OF assms(1)])
qed

lemma in_check_total:
  assumes "wf_board b" "has_king b col"
  shows "\<exists>chk. in_check b col = Inr chk"
  using find_king_has_king [OF assms]
  by (auto simp: in_check_def is_square_attacked_wf [OF assms(1)])

lemma free_or_enemy_iff:
  "free_or_enemy p col \<longleftrightarrow> (\<forall>k. p \<noteq> Some (col, k))"
  by (cases p) (auto simp: free_or_enemy_def)

lemma has_king_sim:
  assumes wf: "wf_board b" and src: "in_bounds r c" and dst: "in_bounds rr cc"
    and p: "piece_at b r c = Some (col, k)"
    and free: "free_or_enemy (piece_at b rr cc) col"
    and king: "has_king b col"
  shows "has_king (sim b r c rr cc) col"
proof -
  from king obtain kr kc where k: "in_bounds kr kc" "piece_at b kr kc = Some (col, King)"
    by (auto simp: has_king_iff)
  from free p have ne: "\<not> (rr = r \<and> cc = c)" by (auto simp: free_or_enemy_iff)
  show ?thesis
  proof (cases "kr = r \<and> kc = c")
    case True
    with k p have "piece_at b r c = Some (col, King)" by simp
    then have "piece_at (sim b r c rr cc) rr cc = Some (col, King)"
      using ne by (simp add: piece_at_sim [OF wf src dst dst])
    with dst show ?thesis by (auto simp: has_king_iff)
  next
    case False
    from free k have "\<not> (kr = rr \<and> kc = cc)" by (auto simp: free_or_enemy_iff)
    with False have "piece_at (sim b r c rr cc) kr kc = Some (col, King)"
      using k by (auto simp: piece_at_sim [OF wf src dst k(1)])
    with k(1) show ?thesis by (auto simp: has_king_iff)
  qed
qed

lemma pseudo_dst:
  "pseudo b r c col k rr cc \<Longrightarrow> in_bounds rr cc \<and> free_or_enemy (piece_at b rr cc) col"
  by (cases k) (auto simp: pseudo_def free_or_enemy_def Let_def)

lemma add_move_good:
  assumes wf: "wf_board b" and src: "in_bounds r c"
    and p: "piece_at b r c = Some (col, k)"
    and king: "has_king b col"
    and ps: "pseudo b r c col k rr cc"
    and g: "good b r c col k moves"
  shows "\<exists>ms. add_move b r c col moves rr cc = Inr ms \<and> good b r c col k ms"
proof -
  from pseudo_dst [OF ps] have dst: "in_bounds rr cc"
    and free: "free_or_enemy (piece_at b rr cc) col" by auto
  from in_check_total [OF wf_sim [OF wf src dst] has_king_sim [OF wf src dst p free king]]
  obtain chk where chk: "in_check (sim b r c rr cc) col = Inr chk" by blast
  show ?thesis
    using g ps chk by (cases chk) (auto simp: add_move_wf [OF wf src dst] good_def)
qed

section \<open>The loops of the move generator\<close>

lemma step_move_good:
  assumes wf: "wf_board b" and src: "in_bounds r c"
    and p: "piece_at b r c = Some (col, k)"
    and king: "has_king b col"
    and d: "k = Knight \<and> d \<in> set knight_offsets
            \<or> k = King \<and> d \<in> set king_offsets \<and> d \<noteq> (0, 0)"
    and g: "good b r c col k moves"
  shows "\<exists>ms. step_move b r c col d moves = Inr ms \<and> good b r c col k ms"
proof (cases "in_bounds (r + fst d) (c + snd d)
              \<and> free_or_enemy (piece_at b (r + fst d) (c + snd d)) col")
  case True
  with d have "pseudo b r c col k (r + fst d) (c + snd d)"
    by (auto simp: pseudo_def)
  from add_move_good [OF wf src p king this g] True show ?thesis
    by (simp add: step_move_def Let_def cell_wf [OF wf])
next
  case False
  then have "step_move b r c col d moves = Inr moves"
    by (auto simp: step_move_def Let_def cell_wf [OF wf])
  with g show ?thesis by simp
qed

lemma slide_good:
  assumes wf: "wf_board b" and src: "in_bounds r c"
    and p: "piece_at b r c = Some (col, k)"
    and king: "has_king b col"
    and k: "k = Bishop \<or> k = Rook \<or> k = Queen"
    and d: "(dr, dc) \<in> set (slide_dirs k)"
    and n: "1 \<le> n" "rr = r + int n * dr" "cc = c + int n * dc"
    and path: "\<forall>j::nat. 1 \<le> j \<and> j < n \<longrightarrow>
                 in_bounds (r + int j * dr) (c + int j * dc)
                 \<and> piece_at b (r + int j * dr) (c + int j * dc) = None"
    and g: "good b r c col k moves"
  shows "\<exists>ms. slide b r c col dr dc rr cc moves = Inr ms \<and> good b r c col k ms"
  using assms
proof (induction b r c col dr dc rr cc moves arbitrary: n rule: slide.induct)
  case (1 board r c col dr dc rr cc moves)
  note wf = "1.prems"(1) and src = "1.prems"(2) and p = "1.prems"(3)
    and king = "1.prems"(4) and k = "1.prems"(5) and d = "1.prems"(6)
    and n = "1.prems"(7,8,9) and path = "1.prems"(10) and g = "1.prems"(11)
  show ?case
  proof (cases "in_bounds rr cc")
    case False
    then have "slide board r c col dr dc rr cc moves = Inr moves"
      by (simp add: slide.simps)
    with g show ?thesis by simp
  next
    case inb: True
    note cw = cell_wf [OF wf inb]
    have ps: "free_or_enemy (piece_at board rr cc) col \<Longrightarrow> pseudo board r c col k rr cc"
      using k d n path inb unfolding pseudo_def
      by (auto intro!: bexI [of _ "(dr, dc)"] exI [of _ n])
    have nz: "\<not> (dr = 0 \<and> dc = 0)"
      using d k by (auto simp: slide_dirs_def diag_dirs_def orth_dirs_def)
    show ?thesis
    proof (cases "piece_at board rr cc")
      case None
      then have "pseudo board r c col k rr cc" by (simp add: ps free_or_enemy_def)
      from add_move_good [OF wf src p king this g]
      obtain ms1 where ms1: "add_move board r c col moves rr cc = Inr ms1"
        "good board r c col k ms1" by blast
      have path': "\<forall>j::nat. 1 \<le> j \<and> j < Suc n \<longrightarrow>
                 in_bounds (r + int j * dr) (c + int j * dc)
                 \<and> piece_at board (r + int j * dr) (c + int j * dc) = None"
      proof (intro allI impI)
        fix j :: nat
        assume "1 \<le> j \<and> j < Suc n"
        then have "j < n \<or> j = n" "1 \<le> j" by auto
        then show "in_bounds (r + int j * dr) (c + int j * dc)
                 \<and> piece_at board (r + int j * dr) (c + int j * dc) = None"
          using path inb None n by auto
      qed
      have "\<exists>ms. slide board r c col dr dc (rr + dr) (cc + dc) ms1 = Inr ms
                 \<and> good board r c col k ms"
      proof (rule "1.IH" [OF inb cw None ms1(1) nz wf src p king k d _ _ _ path' ms1(2)])
        show "1 \<le> Suc n" by simp
        show "rr + dr = r + int (Suc n) * dr" using n by (simp add: algebra_simps)
        show "cc + dc = c + int (Suc n) * dc" using n by (simp add: algebra_simps)
      qed
      then show ?thesis
        using inb cw None ms1(1) nz by (subst slide.simps) simp
    next
      case (Some q)
      show ?thesis
      proof (cases "fst q \<noteq> col")
        case True
        with Some have "pseudo board r c col k rr cc" by (simp add: ps free_or_enemy_def)
        from add_move_good [OF wf src p king this g] show ?thesis
          using inb cw Some True by (subst slide.simps) simp
      next
        case False
        then have "slide board r c col dr dc rr cc moves = Inr moves"
          using inb cw Some by (subst slide.simps) simp
        with g show ?thesis by simp
      qed
    qed
  qed
qed

lemma pawn_capture_good:
  assumes wf: "wf_board b" and src: "in_bounds r c"
    and p: "piece_at b r c = Some (col, Pawn)"
    and king: "has_king b col"
    and dc: "dc \<in> set [- 1, 1]"
    and g: "good b r c col Pawn moves"
  shows "\<exists>ms. pawn_capture b r c col dc moves = Inr ms \<and> good b r c col Pawn ms"
proof (cases "in_bounds (r + pawn_dir col) (c + dc)
              \<and> (\<exists>q. piece_at b (r + pawn_dir col) (c + dc) = Some q \<and> fst q \<noteq> col)")
  case True
  with dc have "pseudo b r c col Pawn (r + pawn_dir col) (c + dc)"
    by (auto simp: pseudo_def Let_def)
  from add_move_good [OF wf src p king this g] True show ?thesis
    by (auto simp: pawn_capture_def Let_def cell_wf [OF wf])
next
  case False
  then have "pawn_capture b r c col dc moves = Inr moves"
    by (auto simp: pawn_capture_def Let_def cell_wf [OF wf] split: option.splits)
  with g show ?thesis by simp
qed

lemma pawn_pushes_good:
  assumes wf: "wf_board b" and src: "in_bounds r c"
    and p: "piece_at b r c = Some (col, Pawn)"
    and king: "has_king b col"
    and g: "good b r c col Pawn moves"
  shows "\<exists>ms. pawn_pushes b r c col moves = Inr ms \<and> good b r c col Pawn ms"
proof (cases "in_bounds (r + pawn_dir col) c \<and> piece_at b (r + pawn_dir col) c = None")
  case False
  then have "pawn_pushes b r c col moves = Inr moves"
    by (auto simp: pawn_pushes_def Let_def cell_wf [OF wf] split: option.splits)
  with g show ?thesis by simp
next
  case True
  then have one: "in_bounds (r + pawn_dir col) c" "piece_at b (r + pawn_dir col) c = None"
    by auto
  then have "pseudo b r c col Pawn (r + pawn_dir col) c"
    by (simp add: pseudo_def Let_def)
  from add_move_good [OF wf src p king this g]
  obtain ms1 where ms1: "add_move b r c col moves (r + pawn_dir col) c = Inr ms1"
    "good b r c col Pawn ms1" by blast
  show ?thesis
  proof (cases "r = pawn_start_row col \<and> piece_at b (r + 2 * pawn_dir col) c = None")
    case False
    have "r = pawn_start_row col \<Longrightarrow> in_bounds (r + 2 * pawn_dir col) c"
      using src by (auto simp: in_bounds_def pawn_start_row_def pawn_dir_def)
    with False have "pawn_pushes b r c col moves = Inr ms1"
      using one ms1(1)
      by (auto simp: pawn_pushes_def Let_def cell_wf [OF wf] split: option.splits)
    with ms1(2) show ?thesis by simp
  next
    case two: True
    then have inb2: "in_bounds (r + 2 * pawn_dir col) c"
      using src by (auto simp: in_bounds_def pawn_start_row_def pawn_dir_def)
    with two one have "pseudo b r c col Pawn (r + 2 * pawn_dir col) c"
      by (auto simp: pseudo_def Let_def)
    from add_move_good [OF wf src p king this ms1(2)] show ?thesis
      using one two inb2 ms1(1)
      by (auto simp: pawn_pushes_def Let_def cell_wf [OF wf])
  qed
qed

lemma pawn_moves_good:
  assumes wf: "wf_board b" and src: "in_bounds r c"
    and p: "piece_at b r c = Some (col, Pawn)"
    and king: "has_king b col"
    and g: "good b r c col Pawn moves"
  shows "\<exists>ms. pawn_moves b r c col moves = Inr ms \<and> good b r c col Pawn ms"
proof -
  from pawn_pushes_good [OF assms]
  obtain ms1 where ms1: "pawn_pushes b r c col moves = Inr ms1" "good b r c col Pawn ms1"
    by blast
  from fold_m_inv [of "good b r c col Pawn" ms1 "[- 1, 1]" "pawn_capture b r c col"]
    pawn_capture_good [OF wf src p king] ms1(2)
  have "\<exists>ms. fold_m (pawn_capture b r c col) [- 1, 1] ms1 = Inr ms \<and> good b r c col Pawn ms"
    by blast
  then show ?thesis by (simp add: pawn_moves_def ms1(1))
qed

lemma good_Nil: "good b r c col k []"
  by (simp add: good_def)

lemma slides_good:
  assumes wf: "wf_board b" and src: "in_bounds r c"
    and p: "piece_at b r c = Some (col, k)"
    and king: "has_king b col"
    and k: "k = Bishop \<or> k = Rook \<or> k = Queen"
  shows "\<exists>ms. fold_m (\<lambda>(dr, dc). slide b r c col dr dc (r + dr) (c + dc)) (slide_dirs k) []
                = Inr ms \<and> good b r c col k ms"
proof (rule fold_m_inv [of "good b r c col k" "[]", OF good_Nil])
  fix d ms
  assume d: "d \<in> set (slide_dirs k)" and g: "good b r c col k ms"
  from slide_good [OF wf src p king k, of "fst d" "snd d" 1 "r + fst d" "c + snd d" ms] d g
  show "\<exists>s'. (case d of (dr, dc) \<Rightarrow> slide b r c col dr dc (r + dr) (c + dc)) ms = Inr s'
          \<and> good b r c col k s'"
    by (simp add: case_prod_beta)
qed

lemma legal_moves_from_other:
  assumes "wf_board b" "in_bounds r c" "\<forall>k. piece_at b r c \<noteq> Some (col, k)"
  shows "legal_moves_from b r c col = Inr []"
  using assms(3)
  by (cases "piece_at b r c") (auto simp: legal_moves_from_def cell_wf [OF assms(1,2)])

lemma legal_moves_from_good:
  assumes wf: "wf_board b" and src: "in_bounds r c"
    and p: "piece_at b r c = Some (col, k)"
    and king: "has_king b col"
  shows "\<exists>ms. legal_moves_from b r c col = Inr ms \<and> good b r c col k ms"
proof -
  note inv = fold_m_inv [of "good b r c col k" "[]", OF good_Nil]
  have unfold: "legal_moves_from b r c col =
      (if k = Pawn then pawn_moves b r c col []
       else if k = Knight then fold_m (step_move b r c col) knight_offsets []
       else if k = Bishop \<or> k = Rook \<or> k = Queen then
         fold_m (\<lambda>(dr, dc). slide b r c col dr dc (r + dr) (c + dc)) (slide_dirs k) []
       else fold_m (\<lambda>d ms. if fst d = 0 \<and> snd d = 0 then Inr ms
                              else step_move b r c col d ms) king_offsets [])"
    using p by (cases k) (simp_all add: legal_moves_from_def cell_wf [OF wf src] slide_dirs_def)
  show ?thesis
  proof (cases k)
    case Pawn
    with pawn_moves_good [OF wf src _ king good_Nil] p show ?thesis
      by (simp add: unfold)
  next
    case Knight
    have "\<exists>ms. fold_m (step_move b r c col) knight_offsets [] = Inr ms \<and> good b r c col k ms"
      by (rule inv) (rule step_move_good [OF wf src p king], simp add: Knight)
    with Knight show ?thesis by (simp add: unfold)
  next
    case King
    have "\<exists>ms. fold_m (\<lambda>d ms. if fst d = 0 \<and> snd d = 0 then Inr ms
                              else step_move b r c col d ms) king_offsets [] = Inr ms
               \<and> good b r c col k ms"
    proof (rule inv)
      fix d ms
      assume d: "d \<in> set king_offsets" and g: "good b r c col k ms"
      show "\<exists>s'. (if fst d = 0 \<and> snd d = 0 then Inr ms else step_move b r c col d ms) = Inr s'
                 \<and> good b r c col k s'"
      proof (cases "fst d = 0 \<and> snd d = 0")
        case True
        with g show ?thesis by simp
      next
        case False
        then have "d \<noteq> (0, 0)" by auto
        with step_move_good [OF wf src p king _ g, of d] d King False show ?thesis
          by auto
      qed
    qed
    with King show ?thesis by (simp add: unfold)
  next
    case Bishop
    with slides_good [OF wf src p king] show ?thesis by (simp add: unfold)
  next
    case Rook
    with slides_good [OF wf src p king] show ?thesis by (simp add: unfold)
  next
    case Queen
    with slides_good [OF wf src p king] show ?thesis by (simp add: unfold)
  qed
qed

section \<open>What the attack detector reads\<close>

lemma ray_attack_cong:
  assumes "wf_board b" "wf_board b'"
    and "\<forall>r c. in_bounds r c \<longrightarrow>
        (piece_at b r c = None \<longleftrightarrow> piece_at b' r c = None)
        \<and> (\<forall>k. piece_at b r c = Some (by_color, k) \<longleftrightarrow> piece_at b' r c = Some (by_color, k))"
  shows "ray_attack b by_color k dr dc rr cc = ray_attack b' by_color k dr dc rr cc"
  using assms
proof (induction b by_color k dr dc rr cc rule: ray_attack.induct)
  case (1 board by_color k dr dc rr cc)
  show ?case
  proof (cases "in_bounds rr cc")
    case False
    then show ?thesis by (simp add: ray_attack.simps)
  next
    case True
    note c = cell_wf [OF "1.prems"(1) True] and c' = cell_wf [OF "1.prems"(2) True]
    from "1.prems"(3) True
    have none: "piece_at board rr cc = None \<longleftrightarrow> piece_at b' rr cc = None"
      and some: "\<And>k. piece_at board rr cc = Some (by_color, k)
                   \<longleftrightarrow> piece_at b' rr cc = Some (by_color, k)"
      by auto
    show ?thesis
    proof (cases "piece_at board rr cc")
      case None
      with none have n': "piece_at b' rr cc = None" by simp
      show ?thesis
      proof (cases "dr = 0 \<and> dc = 0")
        case True
        then show ?thesis
          using \<open>in_bounds rr cc\<close> c c' None n'
          by (simp add: ray_attack.simps [of board] ray_attack.simps [of b'])
      next
        case False
        from "1.IH" [OF \<open>in_bounds rr cc\<close> c None False "1.prems"]
        show ?thesis
          using \<open>in_bounds rr cc\<close> c c' None n' False
          by (simp add: ray_attack.simps [of board _ _ _ _ rr cc]
              ray_attack.simps [of b' _ _ _ _ rr cc])
      qed
    next
      case (Some p)
      with none obtain p' where p': "piece_at b' rr cc = Some p'" by auto
      have "(fst p = by_color \<and> (snd p = k \<or> snd p = Queen))
            = (fst p' = by_color \<and> (snd p' = k \<or> snd p' = Queen))"
        using some [of k] some [of Queen] Some p'
        by (cases p; cases p') auto
      then show ?thesis
        using True c c' Some p'
        by (simp add: ray_attack.simps [of board _ _ _ _ rr cc]
            ray_attack.simps [of b' _ _ _ _ rr cc])
    qed
  qed
qed

lemma attacked_cong:
  assumes "wf_board b" "wf_board b'"
    and v: "\<forall>r c. in_bounds r c \<longrightarrow>
        (piece_at b r c = None \<longleftrightarrow> piece_at b' r c = None)
        \<and> (\<forall>k. piece_at b r c = Some (by_color, k) \<longleftrightarrow> piece_at b' r c = Some (by_color, k))"
  shows "attacked b r c by_color = attacked b' r c by_color"
proof -
  have "piece_at b x y = Some (by_color, k) \<longleftrightarrow> piece_at b' x y = Some (by_color, k)"
    if "in_bounds x y" for x y k
    using v that by blast
  then have cells: "in_bounds x y \<and> piece_at b x y = Some (by_color, k)
      \<longleftrightarrow> in_bounds x y \<and> piece_at b' x y = Some (by_color, k)" for x y k
    by blast
  show ?thesis
    unfolding attacked_def Let_def cells ray_attack_cong [OF assms] ..
qed

lemma in_check_cong:
  assumes wf: "wf_board b" "wf_board b'" and v: "same_view b b' col"
  shows "in_check b col = in_check b' col"
proof -
  have "List.find (\<lambda>(r, c). piece_at b r c = Some (col, King)) squares
      = List.find (\<lambda>(r, c). piece_at b' r c = Some (col, King)) squares"
    using v by (intro find_cong) (auto simp: same_view_def in_squares)
  then have fk: "find_king b col = find_king b' col"
    by (simp add: find_king_wf wf)
  have "attacked b r c (enemy_of col) = attacked b' r c (enemy_of col)" for r c
    using v by (intro attacked_cong [OF wf]) (simp add: same_view_def)
  then have "is_square_attacked b r c (enemy_of col) = is_square_attacked b' r c (enemy_of col)"
    for r c
    by (simp add: is_square_attacked_wf wf)
  then show ?thesis
    by (simp add: in_check_def fk Let_def split: sum.splits option.splits prod.splits)
qed

section \<open>The executor and the list of all moves\<close>

lemma all_legal_moves_sound:
  assumes wf: "wf_board b" and king: "has_king b col"
  shows "\<exists>res. all_legal_moves b col = Inr res \<and> (\<forall>mv \<in> set res. from_generator b col mv)"
  unfolding all_legal_moves_def
proof (rule fold_m_inv [where I = "\<lambda>res. \<forall>mv \<in> set res. from_generator b col mv"])
  show "\<forall>mv \<in> set []. from_generator b col mv" by simp
next
  fix x :: square and res
  assume x: "x \<in> set squares" and inv: "\<forall>mv \<in> set res. from_generator b col mv"
  obtain r c where rc: "x = (r, c)" by (cases x)
  with x have inb: "in_bounds r c" by (simp add: in_squares)
  note cw = cell_wf [OF wf inb]
  show "\<exists>s'. (\<lambda>(r, c) res.
            (case cell b r c of Inl e \<Rightarrow> Inl e
             | Inr None \<Rightarrow> Inr res
             | Inr (Some p) \<Rightarrow>
                 (if fst p = col
                  then (case legal_moves_from b r c col of Inl e \<Rightarrow> Inl e
                        | Inr ms \<Rightarrow> Inr (res @ map (\<lambda>(rr, cc). ((r, c), (rr, cc))) ms))
                  else Inr res))) x res = Inr s'
          \<and> (\<forall>mv \<in> set s'. from_generator b col mv)"
  proof (cases "piece_at b r c")
    case None
    with inv show ?thesis by (simp add: rc cw)
  next
    case (Some p)
    show ?thesis
    proof (cases "fst p = col")
      case False
      with inv Some show ?thesis by (simp add: rc cw)
    next
      case True
      with Some have p: "piece_at b r c = Some (col, snd p)" by (cases p) simp
      from legal_moves_from_good [OF wf inb p king]
      obtain ms where ms: "legal_moves_from b r c col = Inr ms" by blast
      have "from_generator b col ((r, c), m)" if "m \<in> set ms" for m
        using that inb p ms by (auto simp: from_generator_def)
      with inv ms Some True show ?thesis
        by (auto simp: rc cw)
    qed
  qed
qed

lemma move_unfold:
  assumes wf: "wf_board b"
    and src: "algebraic_to_rc src = Inr (r1, c1)" and dst: "algebraic_to_rc dst = Inr (r2, c2)"
    and inb: "in_bounds r1 c1" "in_bounds r2 c2"
    and p: "piece_at b r1 c1 = Some (col, k)"
    and ms: "legal_moves_from b r1 c1 col = Inr ms"
  shows "move b src dst col =
           (if (r2, c2) \<in> set ms then Inr (moved b r1 c1 r2 c2 col k, True, ''OK'')
            else Inr (b, False, ''Illegal move.''))"
  using inb
  by (auto simp: move_def src dst cell_wf [OF wf inb(1)] p ms set_cell_wf [OF wf inb(1)]
      set_cell_wf [OF wf_put [OF wf inb(1)] inb(2)] moved_def promoted_def)

lemma move_accepted:
  assumes wf: "wf_board b" and mv: "move b src dst col = Inr (b', True, msg)"
  shows "\<exists>r1 c1 r2 c2 k ms.
           algebraic_to_rc src = Inr (r1, c1) \<and> algebraic_to_rc dst = Inr (r2, c2)
           \<and> in_bounds r1 c1 \<and> in_bounds r2 c2 \<and> piece_at b r1 c1 = Some (col, k)
           \<and> legal_moves_from b r1 c1 col = Inr ms \<and> (r2, c2) \<in> set ms
           \<and> b' = moved b r1 c1 r2 c2 col k \<and> msg = ''OK''"
proof -
  from mv obtain r1 c1 where src: "algebraic_to_rc src = Inr (r1, c1)"
    by (cases "algebraic_to_rc src") (auto simp: move_def)
  from mv src obtain r2 c2 where dst: "algebraic_to_rc dst = Inr (r2, c2)"
    by (cases "algebraic_to_rc dst") (auto simp: move_def)
  from mv src dst have inb: "in_bounds r1 c1" "in_bounds r2 c2"
    by (auto simp: move_def split: if_splits)
  note cw = cell_wf [OF wf inb(1)]
  from mv src dst inb cw obtain k where p: "piece_at b r1 c1 = Some (col, k)"
    by (cases "piece_at b r1 c1") (auto simp: move_def split: if_splits)
  from mv src dst inb cw p obtain ms where ms: "legal_moves_from b r1 c1 col = Inr ms"
    by (cases "legal_moves_from b r1 c1 col") (auto simp: move_def)
  from mv move_unfold [OF wf src dst inb p ms]
  have "(r2, c2) \<in> set ms" "b' = moved b r1 c1 r2 c2 col k" "msg = ''OK''"
    by (auto split: if_splits)
  with src dst inb p ms show ?thesis by blast
qed

section \<open>No legal move leaves the own king attacked\<close>

lemma has_king_find:
  assumes "wf_board b" "find_king b col = Inr (Some kg)"
  shows "has_king b col"
  using find_king_Some [OF assms(1), of col "fst kg" "snd kg"] assms(2)
  by (auto simp: has_king_iff)

lemma pseudo_not_source:
  assumes "pseudo b r c col k rr cc" "piece_at b r c = Some (col, k)"
  shows "\<not> (rr = r \<and> cc = c)"
  using pseudo_dst [OF assms(1)] assms(2) by (auto simp: free_or_enemy_iff)

lemma wf_moved:
  "wf_board b \<Longrightarrow> in_bounds r1 c1 \<Longrightarrow> in_bounds r2 c2 \<Longrightarrow> wf_board (moved b r1 c1 r2 c2 col k)"
  by (simp add: moved_def wf_put)

lemma piece_at_moved:
  "wf_board b \<Longrightarrow> in_bounds r1 c1 \<Longrightarrow> in_bounds r2 c2 \<Longrightarrow> in_bounds x y \<Longrightarrow>
     piece_at (moved b r1 c1 r2 c2 col k) x y =
       (if x = r2 \<and> y = c2 then promoted col k r2
        else if x = r1 \<and> y = c1 then None else piece_at b x y)"
  by (simp add: moved_def piece_at_put wf_put)

lemma enemy_of_neq [simp]: "enemy_of col \<noteq> col" "col \<noteq> enemy_of col"
  by (cases col; simp add: enemy_of_def)+

lemma same_view_moved_sim:
  assumes wf: "wf_board b" and inb: "in_bounds r1 c1" "in_bounds r2 c2"
    and p: "piece_at b r1 c1 = Some (col, k)"
    and ne: "\<not> (r2 = r1 \<and> c2 = c1)"
  shows "same_view (moved b r1 c1 r2 c2 col k) (sim b r1 c1 r2 c2) col"
  unfolding same_view_def
proof (intro allI impI)
  fix x y
  assume xy: "in_bounds x y"
  let ?m = "piece_at (moved b r1 c1 r2 c2 col k) x y" and ?s = "piece_at (sim b r1 c1 r2 c2) x y"
  have m: "?m = (if x = r2 \<and> y = c2 then promoted col k r2
        else if x = r1 \<and> y = c1 then None else piece_at b x y)"
    by (rule piece_at_moved [OF wf inb xy])
  have s: "?s = (if x = r1 \<and> y = c1 then None
        else if x = r2 \<and> y = c2 then Some (col, k) else piece_at b x y)"
    using piece_at_sim [OF wf inb xy] p by auto
  show "(?m = None \<longleftrightarrow> ?s = None)
        \<and> (?m = Some (col, King) \<longleftrightarrow> ?s = Some (col, King))
        \<and> (\<forall>k'. ?m = Some (enemy_of col, k') \<longleftrightarrow> ?s = Some (enemy_of col, k'))"
    unfolding m s using ne by (auto simp: promoted_def)
qed

lemma in_check_moved:
  assumes wf: "wf_board b" and inb: "in_bounds r1 c1" "in_bounds r2 c2"
    and p: "piece_at b r1 c1 = Some (col, k)"
    and ne: "\<not> (r2 = r1 \<and> c2 = c1)"
  shows "in_check (moved b r1 c1 r2 c2 col k) col = in_check (sim b r1 c1 r2 c2) col"
  by (rule in_check_cong [OF wf_moved [OF wf inb] wf_sim [OF wf inb]
        same_view_moved_sim [OF assms]])

text \<open>
  C1. On an 8 by 8 board with a king of the moving colour, every move that
  \<open>all_legal_moves\<close> returns is accepted by the executor (given as text by
  \<open>rc_to_algebraic\<close>), and on the board the executor leaves the mover is not in
  check. This includes promotions: the simulation of \<open>add_move\<close> has the pawn on the
  destination and the executor a queen, and \<open>in_check\<close> sees no difference.
\<close>

theorem legal_move_keeps_king_safe:
  assumes wf: "wf_board board"
    and king: "find_king board col = Inr (Some kg)"
    and all: "all_legal_moves board col = Inr ms"
    and mv: "((r, c), (rr, cc)) \<in> set ms"
  shows "\<exists>src dst board'.
           rc_to_algebraic r c = Inr src \<and> rc_to_algebraic rr cc = Inr dst
           \<and> move board src dst col = Inr (board', True, ''OK'')
           \<and> in_check board' col = Inr False"
proof -
  note hk = has_king_find [OF wf king]
  from all_legal_moves_sound [OF wf hk] all mv
  have "from_generator board col ((r, c), (rr, cc))" by auto
  then obtain k ms' where src: "in_bounds r c" and p: "piece_at board r c = Some (col, k)"
    and ms': "legal_moves_from board r c col = Inr ms'" and el: "(rr, cc) \<in> set ms'"
    by (auto simp: from_generator_def)
  from legal_moves_from_good [OF wf src p hk] ms' el
  have ps: "pseudo board r c col k rr cc"
    and safe: "in_check (sim board r c rr cc) col = Inr False"
    by (auto simp: good_def)
  from pseudo_dst [OF ps] have dst: "in_bounds rr cc" by simp
  note ne = pseudo_not_source [OF ps p]
  let ?src = "[file_char c, rank_char (8 - r)]" and ?dst = "[file_char cc, rank_char (8 - rr)]"
  have "move board ?src ?dst col = Inr (moved board r c rr cc col k, True, ''OK'')"
    using move_unfold [OF wf rc_round_trip(2) [OF src] rc_round_trip(2) [OF dst] src dst p ms'] el
    by simp
  moreover have "in_check (moved board r c rr cc col k) col = Inr False"
    using in_check_moved [OF wf src dst p ne] safe by simp
  ultimately show ?thesis
    using rc_round_trip(1) [OF src] rc_round_trip(1) [OF dst] by blast
qed

theorem legal_move_keeps_king_safe_witness:
  "\<exists>src dst board'.
     rc_to_algebraic 6 4 = Inr src \<and> rc_to_algebraic 4 4 = Inr dst
     \<and> move initial_board src dst White = Inr (board', True, ''OK'')
     \<and> in_check board' White = Inr False"
proof -
  have wf: "wf_board initial_board" by code_simp
  have king: "find_king initial_board White = Inr (Some (7, 4))" by code_simp
  have all: "all_legal_moves initial_board White =
      Inr [((6, 0), 5, 0), ((6, 0), 4, 0), ((6, 1), 5, 1), ((6, 1), 4, 1),
           ((6, 2), 5, 2), ((6, 2), 4, 2), ((6, 3), 5, 3), ((6, 3), 4, 3),
           ((6, 4), 5, 4), ((6, 4), 4, 4), ((6, 5), 5, 5), ((6, 5), 4, 5),
           ((6, 6), 5, 6), ((6, 6), 4, 6), ((6, 7), 5, 7), ((6, 7), 4, 7),
           ((7, 1), 5, 2), ((7, 1), 5, 0), ((7, 6), 5, 7), ((7, 6), 5, 5)]"
    by code_simp
  show ?thesis
    by (rule legal_move_keeps_king_safe [OF wf king all]) simp
qed

section \<open>What an accepted move does to the board\<close>

lemma pseudo_pawn_rank:
  assumes "pseudo b r c col Pawn rr cc" "in_bounds r c"
  shows "(rr = 0 \<or> rr = 7) \<longleftrightarrow> rr = (if col = White then 0 else 7)"
  using assms
  by (auto simp: pseudo_def Let_def pawn_dir_def pawn_start_row_def in_bounds_def
      split: if_splits)

text \<open>
  C5. On an 8 by 8 board with the mover's king, every destination that the generator
  returns for an in-bounds source is accepted by the executor, whatever text names the
  two squares; the source square then ends empty and the destination holds a queen of
  the mover's colour if the piece was a pawn arriving on its farthest rank (row 0 for
  White, row 7 for Black), and the piece that moved otherwise. The source tests
  \<open>r2 == 0 or r2 == 7\<close> for either colour; a legal pawn move never reaches the other
  one of the two rows.
\<close>

theorem promotion_and_placement:
  assumes wf: "wf_board board"
    and king: "find_king board col = Inr (Some kg)"
    and inb1: "in_bounds r1 c1"
    and ms: "legal_moves_from board r1 c1 col = Inr ms"
    and el: "(r2, c2) \<in> set ms"
    and src: "algebraic_to_rc src = Inr (r1, c1)"
    and dst: "algebraic_to_rc dst = Inr (r2, c2)"
  shows "\<exists>k board'.
           cell board r1 c1 = Inr (Some (col, k))
           \<and> move board src dst col = Inr (board', True, ''OK'')
           \<and> cell board' r1 c1 = Inr None
           \<and> cell board' r2 c2 =
               Inr (Some (col, if k = Pawn \<and> r2 = (if col = White then 0 else 7)
                               then Queen else k))"
proof -
  note hk = has_king_find [OF wf king]
  have "\<exists>k. piece_at board r1 c1 = Some (col, k)"
  proof (rule ccontr)
    assume "\<not> (\<exists>k. piece_at board r1 c1 = Some (col, k))"
    then have "legal_moves_from board r1 c1 col = Inr []"
      using legal_moves_from_other [OF wf inb1] by simp
    with ms el show False by simp
  qed
  then obtain k where p: "piece_at board r1 c1 = Some (col, k)" by blast
  from legal_moves_from_good [OF wf inb1 p hk] ms el
  have ps: "pseudo board r1 c1 col k r2 c2" by (auto simp: good_def)
  from pseudo_dst [OF ps] have inb2: "in_bounds r2 c2" by simp
  note inb = inb1 inb2
  note ne = pseudo_not_source [OF ps p]
  define board' where "board' = moved board r1 c1 r2 c2 col k"
  have mv: "move board src dst col = Inr (board', True, ''OK'')"
    using move_unfold [OF wf src dst inb p ms] el by (simp add: board'_def)
  have pr: "promoted col k r2 =
      Some (col, if k = Pawn \<and> r2 = (if col = White then 0 else 7) then Queen else k)"
    using pseudo_pawn_rank [OF _ inb1, of board col r2 c2] ps
    by (cases "k = Pawn") (auto simp: promoted_def)
  have at1: "piece_at board' r1 c1 = None"
    unfolding board'_def using piece_at_moved [OF wf inb inb1] ne by auto
  have at2: "piece_at board' r2 c2 = promoted col k r2"
    unfolding board'_def using piece_at_moved [OF wf inb inb2] by simp
  have wf': "wf_board board'" unfolding board'_def by (rule wf_moved [OF wf inb])
  have "cell board r1 c1 = Inr (Some (col, k))"
    by (simp add: cell_wf [OF wf inb1] p)
  moreover have "cell board' r1 c1 = Inr None"
    by (simp add: cell_wf [OF wf' inb1] at1)
  moreover have "cell board' r2 c2 =
      Inr (Some (col, if k = Pawn \<and> r2 = (if col = White then 0 else 7) then Queen else k))"
    by (simp only: cell_wf [OF wf' inb2] at2 pr)
  ultimately show ?thesis using mv by blast
qed

theorem promotion_and_placement_witness:
  "\<exists>board'. move promo_board ''a7'' ''a8'' White = Inr (board', True, ''OK'')
      \<and> cell board' 1 0 = Inr None
      \<and> cell board' 0 0 = Inr (Some (White, Queen))"
proof -
  have wf: "wf_board promo_board" by code_simp
  have king: "find_king promo_board White = Inr (Some (7, 4))" by code_simp
  have inb: "in_bounds 1 0" by (simp add: in_bounds_def)
  have ms: "legal_moves_from promo_board 1 0 White = Inr [(0, 0)]" by code_simp
  have el: "(0, 0) \<in> set [(0, 0) :: square]" by simp
  have src: "algebraic_to_rc ''a7'' = Inr (1, 0)" by code_simp
  have dst: "algebraic_to_rc ''a8'' = Inr (0, 0)" by code_simp
  have p: "cell promo_board 1 0 = Inr (Some (White, Pawn))" by code_simp
  from promotion_and_placement [OF wf king inb ms el src dst] p show ?thesis by auto
qed

text \<open>
  C2. The executor does not leave the board it was given as it was: the caller's board
  after f2-f3 is not the initial board.
\<close>

theorem move_returns_new_board_counterexample:
  "move initial_board ''f2'' ''f3'' White = Inr (board_f3, True, ''OK'')
   \<and> board_f3 \<noteq> initial_board"
  by code_simp

text \<open>
  C2, as the code has it. The executor returns the pair (True, OK) and has changed the
  caller's board in place: on an 8 by 8 board with the mover's king, after an accepted
  move the board differs from the one before, the source square, occupied before, is
  empty, the destination is occupied and every other square is as it was.
\<close>

theorem move_mutates_in_place:
  assumes wf: "wf_board board"
    and king: "find_king board col = Inr (Some kg)"
    and mv: "move board src dst col = Inr (board', True, msg)"
  shows "board' \<noteq> board \<and> wf_board board' \<and> msg = ''OK''
         \<and> (\<exists>r1 c1 r2 c2.
               algebraic_to_rc src = Inr (r1, c1) \<and> algebraic_to_rc dst = Inr (r2, c2)
               \<and> cell board r1 c1 \<noteq> Inr None \<and> cell board' r1 c1 = Inr None
               \<and> (\<exists>q. cell board' r2 c2 = Inr (Some q))
               \<and> (\<forall>r c. in_bounds r c \<and> (r, c) \<noteq> (r1, c1) \<and> (r, c) \<noteq> (r2, c2)
                      \<longrightarrow> cell board' r c = cell board r c))"
proof -
  note hk = has_king_find [OF wf king]
  from move_accepted [OF wf mv]
  obtain r1 c1 r2 c2 k ms where src: "algebraic_to_rc src = Inr (r1, c1)"
    and dst: "algebraic_to_rc dst = Inr (r2, c2)"
    and inb: "in_bounds r1 c1" "in_bounds r2 c2"
    and p: "piece_at board r1 c1 = Some (col, k)"
    and ms: "legal_moves_from board r1 c1 col = Inr ms" "(r2, c2) \<in> set ms"
    and b': "board' = moved board r1 c1 r2 c2 col k" and msg: "msg = ''OK''"
    by blast
  from legal_moves_from_good [OF wf inb(1) p hk] ms
  have ps: "pseudo board r1 c1 col k r2 c2" by (auto simp: good_def)
  note ne = pseudo_not_source [OF ps p]
  have wf': "wf_board board'" unfolding b' by (rule wf_moved [OF wf inb])
  have at': "piece_at board' x y =
       (if x = r2 \<and> y = c2 then promoted col k r2
        else if x = r1 \<and> y = c1 then None else piece_at board x y)" if "in_bounds x y" for x y
    unfolding b' by (rule piece_at_moved [OF wf inb that])
  have src_empty: "piece_at board' r1 c1 = None"
    using at' [OF inb(1)] ne by auto
  with p have "board' \<noteq> board" by auto
  moreover have "cell board r1 c1 \<noteq> Inr None"
    using p by (simp add: cell_wf [OF wf inb(1)])
  moreover have "cell board' r1 c1 = Inr None"
    using src_empty by (simp add: cell_wf [OF wf' inb(1)])
  moreover have "\<exists>q. cell board' r2 c2 = Inr (Some q)"
    using at' [OF inb(2)] by (simp add: cell_wf [OF wf' inb(2)] promoted_def)
  moreover have "\<forall>r c. in_bounds r c \<and> (r, c) \<noteq> (r1, c1) \<and> (r, c) \<noteq> (r2, c2)
                      \<longrightarrow> cell board' r c = cell board r c"
    using at' by (auto simp: cell_wf [OF wf'] cell_wf [OF wf])
  ultimately show ?thesis using wf' msg src dst by blast
qed

theorem move_mutates_in_place_witness:
  "board_f3 \<noteq> initial_board \<and> wf_board board_f3
   \<and> cell initial_board 6 5 \<noteq> Inr None \<and> cell board_f3 6 5 = Inr None
   \<and> (\<exists>q. cell board_f3 5 5 = Inr (Some q))
   \<and> cell board_f3 0 0 = cell initial_board 0 0"
proof -
  have wf: "wf_board initial_board" by code_simp
  have king: "find_king initial_board White = Inr (Some (7, 4))" by code_simp
  have mv: "move initial_board ''f2'' ''f3'' White = Inr (board_f3, True, ''OK'')"
    by code_simp
  have src: "algebraic_to_rc ''f2'' = Inr (6, 5)" and dst: "algebraic_to_rc ''f3'' = Inr (5, 5)"
    by code_simp+
  have inb: "in_bounds 0 0" by (simp add: in_bounds_def)
  from move_mutates_in_place [OF wf king mv] src dst inb show ?thesis by auto
qed

section \<open>Queries outside the board\<close>

text \<open>
  C4. The generator does not answer an out-of-range source with the empty list. The
  command \<open>moves a0\<close> of \<open>main\<close> converts the text to row 8 and calls the generator,
  which raises IndexError at \<open>board[r][c]\<close>; \<open>moves b9\<close> gives row -1, which Python
  reads as the last row, and the generator returns moves for the knight of b1. The
  executor, given the same source, answers with its out-of-bounds failure before it
  calls the generator.
\<close>

theorem generator_out_of_range:
  "algebraic_to_rc ''a0'' = Inr (8, 0)
   \<and> legal_moves_from initial_board 8 0 White = Inl IndexError
   \<and> algebraic_to_rc ''b9'' = Inr (- 1, 1)
   \<and> legal_moves_from initial_board (- 1) 1 White = Inr [(1, 2), (0, 3), (1, 0)]
   \<and> move initial_board ''a0'' ''a1'' White = Inr (initial_board, False, ''Out of bounds.'')"
  by code_simp

theorem generator_out_of_range_witness:
  "legal_moves_from initial_board 8 0 White \<noteq> Inr []
   \<and> legal_moves_from initial_board (- 1) 1 White \<noteq> Inr []"
  using generator_out_of_range by simp

text \<open>
  Inside the board the two queries return: on an 8 by 8 board and for an in-bounds
  source, the generator returns the empty list when the source is empty or holds a piece
  of the other colour, and returns a list whenever the board holds a king of the colour;
  the attack detector returns a boolean for every target.
\<close>

lemma queries_return_in_range:
  assumes wf: "wf_board board" and inb: "in_bounds r c"
  shows "((cell board r c = Inr None \<or> (\<exists>p. cell board r c = Inr (Some p) \<and> fst p \<noteq> col))
            \<longrightarrow> legal_moves_from board r c col = Inr [])
         \<and> ((\<exists>kg. find_king board col = Inr (Some kg))
            \<longrightarrow> (\<exists>ms. legal_moves_from board r c col = Inr ms))
         \<and> (\<exists>a. is_square_attacked board tr tc by_color = Inr a)"
proof (intro conjI impI)
  assume "cell board r c = Inr None \<or> (\<exists>p. cell board r c = Inr (Some p) \<and> fst p \<noteq> col)"
  then have "\<forall>k. piece_at board r c \<noteq> Some (col, k)"
    by (auto simp: cell_wf [OF wf inb])
  then show "legal_moves_from board r c col = Inr []"
    by (rule legal_moves_from_other [OF wf inb])
next
  assume "\<exists>kg. find_king board col = Inr (Some kg)"
  then have hk: "has_king board col" using has_king_find [OF wf] by blast
  show "\<exists>ms. legal_moves_from board r c col = Inr ms"
  proof (cases "\<exists>k. piece_at board r c = Some (col, k)")
    case True
    then obtain k where "piece_at board r c = Some (col, k)" by blast
    from legal_moves_from_good [OF wf inb this hk] show ?thesis by blast
  next
    case False
    then show ?thesis using legal_moves_from_other [OF wf inb] by simp
  qed
next
  show "\<exists>a. is_square_attacked board tr tc by_color = Inr a"
    by (simp add: is_square_attacked_wf [OF wf])
qed

section \<open>Classification of a position\<close>

text \<open>
  C6. The three predicates are not mutually exclusive: after the four moves of
  scenario A White is in check and checkmated.
\<close>

theorem check_and_checkmate_counterexample:
  "in_check board_h4 White = Inr True \<and> is_checkmate board_h4 White = Inr True"
  by code_simp

text \<open>
  C6, as the code has it. On an 8 by 8 board with a king of the colour the three
  predicates and \<open>all_legal_moves\<close> return; checkmate is check with no legal move and
  stalemate is no check with no legal move, so the two exclude each other and both are
  false when there is a legal move.
\<close>

theorem position_classification:
  assumes wf: "wf_board board" and king: "find_king board col = Inr (Some kg)"
  shows "\<exists>chk mate stale ms.
           in_check board col = Inr chk \<and> is_checkmate board col = Inr mate
           \<and> is_stalemate board col = Inr stale \<and> all_legal_moves board col = Inr ms
           \<and> (mate \<longleftrightarrow> chk \<and> ms = []) \<and> (stale \<longleftrightarrow> \<not> chk \<and> ms = [])
           \<and> \<not> (mate \<and> stale) \<and> (ms \<noteq> [] \<longrightarrow> \<not> mate \<and> \<not> stale)"
proof -
  note hk = has_king_find [OF wf king]
  from in_check_total [OF wf hk] obtain chk where chk: "in_check board col = Inr chk" by blast
  from all_legal_moves_sound [OF wf hk] obtain ms where ms: "all_legal_moves board col = Inr ms"
    by blast
  have "is_checkmate board col = Inr (chk \<and> ms = [])"
    by (simp add: is_checkmate_def chk ms)
  moreover have "is_stalemate board col = Inr (\<not> chk \<and> ms = [])"
    by (simp add: is_stalemate_def chk ms)
  ultimately show ?thesis using chk ms by auto
qed

theorem position_classification_witness:
  "in_check board_h4 White = Inr True \<and> is_checkmate board_h4 White = Inr True
   \<and> is_stalemate board_h4 White = Inr False \<and> all_legal_moves board_h4 White = Inr []"
proof -
  have wf: "wf_board board_h4" by code_simp
  have king: "find_king board_h4 White = Inr (Some (7, 4))" by code_simp
  have chk: "in_check board_h4 White = Inr True" by code_simp
  have ms: "all_legal_moves board_h4 White = Inr []" by code_simp
  from position_classification [OF wf king] chk ms show ?thesis by auto
qed

section \<open>A generated capture is an attack\<close>

lemma ray_attack_hits:
  assumes wf: "wf_board b" and nz: "dr \<noteq> 0 \<or> dc \<noteq> 0"
    and path: "\<forall>j::nat. j < m \<longrightarrow> in_bounds (x + int j * dr) (y + int j * dc)
                 \<and> piece_at b (x + int j * dr) (y + int j * dc) = None"
    and hit: "in_bounds (x + int m * dr) (y + int m * dc)"
      "piece_at b (x + int m * dr) (y + int m * dc) = Some (by_color, k')"
    and k': "k' = k \<or> k' = Queen"
  shows "ray_attack b by_color k dr dc x y = Inr True"
  using path hit
proof (induction m arbitrary: x y)
  case 0
  then show ?case
    using k' by (subst ray_attack.simps) (auto simp: cell_wf [OF wf])
next
  case (Suc m)
  from Suc.prems(1) [rule_format, of 0]
  have here: "in_bounds x y" "piece_at b x y = None" by auto
  have "ray_attack b by_color k dr dc (x + dr) (y + dc) = Inr True"
  proof (rule Suc.IH)
    show "\<forall>j::nat. j < m \<longrightarrow> in_bounds (x + dr + int j * dr) (y + dc + int j * dc)
            \<and> piece_at b (x + dr + int j * dr) (y + dc + int j * dc) = None"
    proof (intro allI impI)
      fix j :: nat assume "j < m"
      with Suc.prems(1) [rule_format, of "Suc j"]
      show "in_bounds (x + dr + int j * dr) (y + dc + int j * dc)
            \<and> piece_at b (x + dr + int j * dr) (y + dc + int j * dc) = None"
        by (simp add: algebra_simps)
    qed
    show "in_bounds (x + dr + int m * dr) (y + dc + int m * dc)"
      using Suc.prems(2) by (simp add: algebra_simps)
    show "piece_at b (x + dr + int m * dr) (y + dc + int m * dc) = Some (by_color, k')"
      using Suc.prems(3) by (simp add: algebra_simps)
  qed
  then show ?case
    using here nz by (subst ray_attack.simps) (auto simp: cell_wf [OF wf])
qed

lemma slide_attacks:
  assumes wf: "wf_board b" and src: "in_bounds r c"
    and p: "piece_at b r c = Some (col, k')" and k': "k' = k \<or> k' = Queen"
    and nz: "dr \<noteq> 0 \<or> dc \<noteq> 0"
    and n: "1 \<le> n" "rr = r + int n * dr" "cc = c + int n * dc"
    and path: "\<forall>j::nat. 1 \<le> j \<and> j < n \<longrightarrow>
                 in_bounds (r + int j * dr) (c + int j * dc)
                 \<and> piece_at b (r + int j * dr) (c + int j * dc) = None"
  shows "ray_attack b col k (- dr) (- dc) (rr + - dr) (cc + - dc) = Inr True"
proof (rule ray_attack_hits [OF wf _ _ _ _ k', where m = "n - 1"])
  show "- dr \<noteq> 0 \<or> - dc \<noteq> 0" using nz by simp
  have rev_ix: "rr + - dr + int j * - dr = r + int (n - 1 - j) * dr"
    "cc + - dc + int j * - dc = c + int (n - 1 - j) * dc" if "j \<le> n - 1" for j
    using that n by (simp_all add: algebra_simps)
  show "\<forall>j::nat. j < n - 1 \<longrightarrow> in_bounds (rr + - dr + int j * - dr) (cc + - dc + int j * - dc)
          \<and> piece_at b (rr + - dr + int j * - dr) (cc + - dc + int j * - dc) = None"
  proof (intro allI impI)
    fix j :: nat assume j: "j < n - 1"
    then have "1 \<le> n - 1 - j \<and> n - 1 - j < n" by auto
    with path have "in_bounds (r + int (n - 1 - j) * dr) (c + int (n - 1 - j) * dc)
        \<and> piece_at b (r + int (n - 1 - j) * dr) (c + int (n - 1 - j) * dc) = None"
      by blast
    then show "in_bounds (rr + - dr + int j * - dr) (cc + - dc + int j * - dc)
          \<and> piece_at b (rr + - dr + int j * - dr) (cc + - dc + int j * - dc) = None"
      using rev_ix [of j] j by simp
  qed
  show "in_bounds (rr + - dr + int (n - 1) * - dr) (cc + - dc + int (n - 1) * - dc)"
    using rev_ix [of "n - 1"] src by simp
  show "piece_at b (rr + - dr + int (n - 1) * - dr) (cc + - dc + int (n - 1) * - dc)
        = Some (col, k')"
    using rev_ix [of "n - 1"] p by simp
qed

lemma neg_dir_all:
  "\<forall>d \<in> set diag_dirs. (- fst d, - snd d) \<in> set diag_dirs"
  "\<forall>d \<in> set orth_dirs. (- fst d, - snd d) \<in> set orth_dirs"
  "\<forall>d \<in> set knight_offsets. (- fst d, - snd d) \<in> set knight_offsets"
  "\<forall>d \<in> set king_offsets. (- fst d, - snd d) \<in> set king_offsets"
  by code_simp+

lemma neg_dir:
  "d \<in> set diag_dirs \<Longrightarrow> (- fst d, - snd d) \<in> set diag_dirs"
  "d \<in> set orth_dirs \<Longrightarrow> (- fst d, - snd d) \<in> set orth_dirs"
  "d \<in> set knight_offsets \<Longrightarrow> (- fst d, - snd d) \<in> set knight_offsets"
  "d \<in> set king_offsets \<Longrightarrow> (- fst d, - snd d) \<in> set king_offsets"
  using neg_dir_all by blast+

lemma dir_nonzero:
  "d \<in> set diag_dirs \<Longrightarrow> fst d \<noteq> 0 \<or> snd d \<noteq> 0"
  "d \<in> set orth_dirs \<Longrightarrow> fst d \<noteq> 0 \<or> snd d \<noteq> 0"
  by (auto simp: diag_dirs_def orth_dirs_def)

lemma attackedI:
  "\<And>dc. dc \<in> set [- 1, 1] \<Longrightarrow> in_bounds (r - pawn_dir by_color) (c + dc) \<Longrightarrow>
     piece_at b (r - pawn_dir by_color) (c + dc) = Some (by_color, Pawn) \<Longrightarrow>
     attacked b r c by_color"
  "\<And>d. d \<in> set knight_offsets \<Longrightarrow> in_bounds (r + fst d) (c + snd d) \<Longrightarrow>
     piece_at b (r + fst d) (c + snd d) = Some (by_color, Knight) \<Longrightarrow>
     attacked b r c by_color"
  "\<And>d. d \<in> set diag_dirs \<Longrightarrow>
     ray_attack b by_color Bishop (fst d) (snd d) (r + fst d) (c + snd d) = Inr True \<Longrightarrow>
     attacked b r c by_color"
  "\<And>d. d \<in> set orth_dirs \<Longrightarrow>
     ray_attack b by_color Rook (fst d) (snd d) (r + fst d) (c + snd d) = Inr True \<Longrightarrow>
     attacked b r c by_color"
  "\<And>d. d \<in> set king_offsets \<Longrightarrow> d \<noteq> (0, 0) \<Longrightarrow> in_bounds (r + fst d) (c + snd d) \<Longrightarrow>
     piece_at b (r + fst d) (c + snd d) = Some (by_color, King) \<Longrightarrow>
     attacked b r c by_color"
  unfolding attacked_def Let_def pawn_dir_def by blast+

lemma capture_attacks:
  assumes wf: "wf_board b" and src: "in_bounds r c"
    and p: "piece_at b r c = Some (col, k)"
    and ps: "pseudo b r c col k rr cc"
    and occ: "piece_at b rr cc \<noteq> None"
  shows "attacked b rr cc col"
proof -
  have diag: "attacked b rr cc col"
    if d: "d \<in> set diag_dirs" and n: "1 \<le> n" "rr = r + int n * fst d" "cc = c + int n * snd d"
      and path: "\<forall>j::nat. 1 \<le> j \<and> j < n \<longrightarrow>
                 in_bounds (r + int j * fst d) (c + int j * snd d)
                 \<and> piece_at b (r + int j * fst d) (c + int j * snd d) = None"
      and k: "k = Bishop \<or> k = Queen" for d n
  proof (rule attackedI(3) [OF neg_dir(1) [OF d]])
    from slide_attacks [OF wf src p k dir_nonzero(1) [OF d] n path]
    show "ray_attack b col Bishop (fst (- fst d, - snd d)) (snd (- fst d, - snd d))
            (rr + fst (- fst d, - snd d)) (cc + snd (- fst d, - snd d)) = Inr True"
      by simp
  qed
  have orth: "attacked b rr cc col"
    if d: "d \<in> set orth_dirs" and n: "1 \<le> n" "rr = r + int n * fst d" "cc = c + int n * snd d"
      and path: "\<forall>j::nat. 1 \<le> j \<and> j < n \<longrightarrow>
                 in_bounds (r + int j * fst d) (c + int j * snd d)
                 \<and> piece_at b (r + int j * fst d) (c + int j * snd d) = None"
      and k: "k = Rook \<or> k = Queen" for d n
  proof (rule attackedI(4) [OF neg_dir(2) [OF d]])
    from slide_attacks [OF wf src p k dir_nonzero(2) [OF d] n path]
    show "ray_attack b col Rook (fst (- fst d, - snd d)) (snd (- fst d, - snd d))
            (rr + fst (- fst d, - snd d)) (cc + snd (- fst d, - snd d)) = Inr True"
      by simp
  qed
  have slides: "attacked b rr cc col" if k: "k = Bishop \<or> k = Rook \<or> k = Queen"
  proof -
    from ps k obtain d n where d: "d \<in> set (slide_dirs k)" and n: "1 \<le> n"
      "rr = r + int n * fst d" "cc = c + int n * snd d"
      and path: "\<forall>j::nat. 1 \<le> j \<and> j < n \<longrightarrow>
                 in_bounds (r + int j * fst d) (c + int j * snd d)
                 \<and> piece_at b (r + int j * fst d) (c + int j * snd d) = None"
      unfolding pseudo_def by (elim disjE) (simp, blast)+
    from d have "d \<in> set diag_dirs \<and> (k = Bishop \<or> k = Queen)
               \<or> d \<in> set orth_dirs \<and> (k = Rook \<or> k = Queen)"
      by (auto simp: slide_dirs_def split: if_splits)
    then show ?thesis using diag [OF _ n path] orth [OF _ n path] by blast
  qed
  show ?thesis
  proof (cases k)
    case Pawn
    with ps occ have sq: "rr = r + pawn_dir col" "cc = c - 1 \<or> cc = c + 1"
      by (auto simp: pseudo_def Let_def)
    from sq(2) show ?thesis
    proof
      assume "cc = c - 1"
      with sq(1) src p Pawn show ?thesis by (intro attackedI(1) [of 1]) simp_all
    next
      assume "cc = c + 1"
      with sq(1) src p Pawn show ?thesis by (intro attackedI(1) [of "- 1"]) simp_all
    qed
  next
    case Knight
    with ps have d: "(rr - r, cc - c) \<in> set knight_offsets" by (simp add: pseudo_def)
    from neg_dir(3) [OF d] src p Knight show ?thesis
      by (intro attackedI(2) [of "(r - rr, c - cc)"]) simp_all
  next
    case King
    with ps have d: "(rr - r, cc - c) \<in> set king_offsets" "(rr - r, cc - c) \<noteq> (0, 0)"
      by (simp_all add: pseudo_def)
    from neg_dir(4) [OF d(1)] d(2) src p King show ?thesis
      by (intro attackedI(5) [of "(r - rr, c - cc)"]) auto
  next
    case Bishop
    then show ?thesis by (simp add: slides)
  next
    case Rook
    then show ?thesis by (simp add: slides)
  next
    case Queen
    then show ?thesis by (simp add: slides)
  qed
qed

section \<open>The invariant of the game\<close>

lemma enemy_of_enemy [simp]: "enemy_of (enemy_of col) = col"
  by (cases col) (simp_all add: enemy_of_def)

lemma next_turn_enemy: "next_turn turn = enemy_of turn"
  by (cases turn) (simp_all add: enemy_of_def next_turn_def)

lemma in_king_squares:
  assumes "wf_board b"
  shows "(x, y) \<in> set (king_squares b col)
         \<longleftrightarrow> in_bounds x y \<and> piece_at b x y = Some (col, King)"
  using cell_wf [OF assms, of x y] by (auto simp: king_squares_def in_squares)

lemma unique_king_iff:
  assumes wf: "wf_board b"
  shows "unique_king b col \<longleftrightarrow> length (king_squares b col) = 1"
proof
  assume "unique_king b col"
  then obtain kr kc where k: "in_bounds kr kc" "piece_at b kr kc = Some (col, King)"
    and u: "\<And>x y. in_bounds x y \<Longrightarrow> piece_at b x y = Some (col, King) \<Longrightarrow> x = kr \<and> y = kc"
    unfolding unique_king_def by blast
  have "sq \<in> set (king_squares b col) \<longleftrightarrow> sq = (kr, kc)" for sq
    using in_king_squares [OF wf, of "fst sq" "snd sq" col] k u [of "fst sq" "snd sq"]
    by (cases sq) auto
  then have "set (king_squares b col) = {(kr, kc)}" by blast
  moreover have "distinct (king_squares b col)"
    by (simp add: king_squares_def distinct_squares)
  ultimately show "length (king_squares b col) = 1"
    using distinct_card [of "king_squares b col"] by simp
next
  assume "length (king_squares b col) = 1"
  then obtain sq where sq: "king_squares b col = [sq]"
    by (cases "king_squares b col") auto
  obtain kr kc where kk: "sq = (kr, kc)" by (cases sq)
  have mem: "in_bounds x y \<and> piece_at b x y = Some (col, King) \<longleftrightarrow> x = kr \<and> y = kc" for x y
    using in_king_squares [OF wf, of x y col] by (simp add: sq kk)
  show "unique_king b col"
    unfolding unique_king_def
  proof (intro exI conjI allI impI)
    show "in_bounds kr kc" using mem [of kr kc] by simp
    show "piece_at b kr kc = Some (col, King)" using mem [of kr kc] by simp
    fix x y assume "in_bounds x y \<and> piece_at b x y = Some (col, King)"
    then show "x = kr" "y = kc" using mem [of x y] by simp_all
  qed
qed

lemma unique_king_cong:
  assumes "\<forall>x y. in_bounds x y \<longrightarrow>
             (piece_at b' x y = Some (col, King) \<longleftrightarrow> piece_at b x y = Some (col, King))"
    and "unique_king b col"
  shows "unique_king b' col"
proof -
  from assms(2) obtain kr kc where k: "in_bounds kr kc" "piece_at b kr kc = Some (col, King)"
    and u: "\<forall>x y. in_bounds x y \<and> piece_at b x y = Some (col, King) \<longrightarrow> x = kr \<and> y = kc"
    unfolding unique_king_def by blast
  from assms(1) k have "in_bounds kr kc \<and> piece_at b' kr kc = Some (col, King)" by blast
  moreover from assms(1) u
  have "\<forall>x y. in_bounds x y \<and> piece_at b' x y = Some (col, King) \<longrightarrow> x = kr \<and> y = kc"
    by blast
  ultimately show ?thesis unfolding unique_king_def by blast
qed

lemma unique_king_has_king: "unique_king b col \<Longrightarrow> has_king b col"
  by (auto simp: unique_king_def has_king_iff)

lemma in_check_False:
  assumes wf: "wf_board b" and u: "unique_king b col"
    and safe: "in_check b col = Inr False"
    and k: "in_bounds kr kc" "piece_at b kr kc = Some (col, King)"
  shows "\<not> attacked b kr kc (enemy_of col)"
proof -
  from find_king_has_king [OF wf unique_king_has_king [OF u]]
  obtain x y where f: "find_king b col = Inr (Some (x, y))" by blast
  from find_king_Some [OF wf f] u k have "x = kr" "y = kc"
    unfolding unique_king_def by blast+
  with safe f show ?thesis
    by (simp add: in_check_def is_square_attacked_wf [OF wf])
qed

lemma game_inv_start: "game_inv initial_board White"
proof -
  have wf: "wf_board initial_board" by code_simp
  have "length (king_squares initial_board White) = 1"
    "length (king_squares initial_board Black) = 1"
    "in_check initial_board (enemy_of White) = Inr False"
    by code_simp+
  then show ?thesis by (simp add: game_inv_def wf unique_king_iff [OF wf])
qed

lemma promoted_King: "promoted col k r2 = Some (col', King) \<longleftrightarrow> col' = col \<and> k = King"
  by (auto simp: promoted_def)

lemma game_inv_step:
  assumes inv: "game_inv b turn"
    and mv: "move b src dst turn = Inr (b', True, msg)"
  shows "game_inv b' (next_turn turn)"
proof -
  from inv have wf: "wf_board b" and uW: "unique_king b White" and uB: "unique_king b Black"
    and safe: "in_check b (enemy_of turn) = Inr False"
    unfolding game_inv_def by simp_all
  have uk: "unique_king b col" for col
    by (cases col) (simp_all add: uW uB)
  note hk = unique_king_has_king [OF uk]
  from move_accepted [OF wf mv]
  obtain r1 c1 r2 c2 k ms where inb: "in_bounds r1 c1" "in_bounds r2 c2"
    and p: "piece_at b r1 c1 = Some (turn, k)"
    and ms: "legal_moves_from b r1 c1 turn = Inr ms" "(r2, c2) \<in> set ms"
    and b': "b' = moved b r1 c1 r2 c2 turn k"
    by blast
  from legal_moves_from_good [OF wf inb(1) p hk] ms
  have ps: "pseudo b r1 c1 turn k r2 c2"
    and safe': "in_check (sim b r1 c1 r2 c2) turn = Inr False"
    by (auto simp: good_def)
  note ne = pseudo_not_source [OF ps p]
  from pseudo_dst [OF ps] have free: "\<And>k'. piece_at b r2 c2 \<noteq> Some (turn, k')"
    by (simp add: free_or_enemy_iff)
  have wf': "wf_board b'" unfolding b' by (rule wf_moved [OF wf inb])
  have at': "piece_at b' x y =
       (if x = r2 \<and> y = c2 then promoted turn k r2
        else if x = r1 \<and> y = c1 then None else piece_at b x y)" if "in_bounds x y" for x y
    unfolding b' by (rule piece_at_moved [OF wf inb that])
  have chk: "in_check b' turn = Inr False"
    unfolding b' using in_check_moved [OF wf inb p ne] safe' by simp
  have no_king: "piece_at b r2 c2 \<noteq> Some (enemy_of turn, King)"
  proof
    assume e: "piece_at b r2 c2 = Some (enemy_of turn, King)"
    then have "attacked b r2 c2 turn"
      using capture_attacks [OF wf inb(1) p ps] by simp
    moreover have "\<not> attacked b r2 c2 (enemy_of (enemy_of turn))"
      by (rule in_check_False [OF wf uk safe inb(2) e])
    ultimately show False by simp
  qed
  have enemy: "unique_king b' (enemy_of turn)"
  proof (rule unique_king_cong [OF _ uk], intro allI impI)
    fix x y assume xy: "in_bounds x y"
    show "piece_at b' x y = Some (enemy_of turn, King)
          \<longleftrightarrow> piece_at b x y = Some (enemy_of turn, King)"
      using at' [OF xy] no_king p by (auto simp: promoted_King)
  qed
  have own: "unique_king b' turn"
  proof (cases "k = King")
    case False
    show ?thesis
    proof (rule unique_king_cong [OF _ uk], intro allI impI)
      fix x y assume xy: "in_bounds x y"
      show "piece_at b' x y = Some (turn, King) \<longleftrightarrow> piece_at b x y = Some (turn, King)"
        using at' [OF xy] free p False by (auto simp: promoted_King)
    qed
  next
    case True
    from uk [of turn] p True inb(1)
    have only: "\<And>x y. in_bounds x y \<Longrightarrow> piece_at b x y = Some (turn, King)
                  \<Longrightarrow> x = r1 \<and> y = c1"
      unfolding unique_king_def by blast
    show ?thesis
      unfolding unique_king_def
    proof (intro exI conjI allI impI)
      show "in_bounds r2 c2" by (rule inb(2))
      show "piece_at b' r2 c2 = Some (turn, King)"
        using at' [OF inb(2)] True by (simp add: promoted_King promoted_def)
      fix x y assume a: "in_bounds x y \<and> piece_at b' x y = Some (turn, King)"
      then have xy: "in_bounds x y" and pk: "piece_at b' x y = Some (turn, King)" by simp_all
      have "x = r2 \<and> y = c2"
      proof (rule ccontr)
        assume n: "\<not> (x = r2 \<and> y = c2)"
        with at' [OF xy] pk
        have "(if x = r1 \<and> y = c1 then None else piece_at b x y) = Some (turn, King)"
          by simp
        then have "\<not> (x = r1 \<and> y = c1)" "piece_at b x y = Some (turn, King)"
          by (simp_all split: if_splits)
        with only [OF xy] show False by blast
      qed
      then show "x = r2" "y = c2" by simp_all
    qed
  qed
  have "unique_king b' col" for col
    using own enemy by (cases col; cases turn) (simp_all add: enemy_of_def)
  then show ?thesis
    using wf' chk by (simp add: game_inv_def next_turn_enemy)
qed

lemma reachable_game_inv: "reachable b turn \<Longrightarrow> game_inv b turn"
proof (induction rule: reachable.induct)
  case start
  show ?case by (rule game_inv_start)
next
  case (step board turn src dst board' msg)
  from step.IH step.hyps(2) show ?case by (rule game_inv_step)
qed


lemma scenario_reachable:
  "reachable board_f3 Black" "reachable board_e5 White" "reachable board_g4 Black"
  "reachable board_h4 White"
proof -
  have m1: "move initial_board ''f2'' ''f3'' White = Inr (board_f3, True, ''OK'')"
    and m2: "move board_f3 ''e7'' ''e5'' Black = Inr (board_e5, True, ''OK'')"
    and m3: "move board_e5 ''g2'' ''g4'' White = Inr (board_g4, True, ''OK'')"
    and m4: "move board_g4 ''d8'' ''h4'' Black = Inr (board_h4, True, ''OK'')"
    by code_simp+
  show r1: "reachable board_f3 Black"
    using reachable.step [OF reachable.start m1] by (simp add: next_turn_def)
  show r2: "reachable board_e5 White"
    using reachable.step [OF r1 m2] by (simp add: next_turn_def)
  show r3: "reachable board_g4 Black"
    using reachable.step [OF r2 m3] by (simp add: next_turn_def)
  show "reachable board_h4 White"
    using reachable.step [OF r3 m4] by (simp add: next_turn_def)
qed

text \<open>
  C7, as the code has it. In every state reachable from the initial board by moves the
  executor accepts, the turn passing to the other colour after each, both colours have
  exactly one king, and no move of \<open>all_legal_moves\<close> for the side to move ends on
  the square of the other side's king.
\<close>

theorem reachable_kings:
  assumes "reachable board turn"
  shows "length (king_squares board White) = 1 \<and> length (king_squares board Black) = 1
         \<and> (\<exists>ms kg. all_legal_moves board turn = Inr ms
               \<and> find_king board (next_turn turn) = Inr (Some kg)
               \<and> (\<forall>mv \<in> set ms. snd mv \<noteq> kg))"
proof -
  from reachable_game_inv [OF assms]
  have wf: "wf_board board" and uW: "unique_king board White" and uB: "unique_king board Black"
    and safe: "in_check board (enemy_of turn) = Inr False"
    unfolding game_inv_def by simp_all
  have uk: "unique_king board col" for col
    by (cases col) (simp_all add: uW uB)
  note hk = unique_king_has_king [OF uk]
  from all_legal_moves_sound [OF wf hk]
  obtain ms where ms: "all_legal_moves board turn = Inr ms"
    and gen: "\<And>mv. mv \<in> set ms \<Longrightarrow> from_generator board turn mv" by blast
  from find_king_has_king [OF wf hk]
  obtain kr kc where kg: "find_king board (enemy_of turn) = Inr (Some (kr, kc))" by blast
  note k = find_king_Some [OF wf kg]
  have "snd mv \<noteq> (kr, kc)" if "mv \<in> set ms" for mv
  proof
    assume hit: "snd mv = (kr, kc)"
    from gen [OF that] obtain k' ms' where src: "in_bounds (fst (fst mv)) (snd (fst mv))"
      and p: "piece_at board (fst (fst mv)) (snd (fst mv)) = Some (turn, k')"
      and ms': "legal_moves_from board (fst (fst mv)) (snd (fst mv)) turn = Inr ms'"
        "snd mv \<in> set ms'"
      unfolding from_generator_def by blast
    from legal_moves_from_good [OF wf src p hk] ms' hit
    have "pseudo board (fst (fst mv)) (snd (fst mv)) turn k' kr kc"
      by (auto simp: good_def)
    from capture_attacks [OF wf src p this] k have "attacked board kr kc turn" by simp
    moreover from in_check_False [OF wf uk safe] k
    have "\<not> attacked board kr kc (enemy_of (enemy_of turn))" by blast
    ultimately show False by simp
  qed
  with ms kg show ?thesis
    using uW uB by (auto simp: unique_king_iff [OF wf] next_turn_enemy)
qed

theorem reachable_kings_witness:
  "length (king_squares board_g4 White) = 1 \<and> length (king_squares board_g4 Black) = 1
   \<and> (\<exists>ms kg. all_legal_moves board_g4 Black = Inr ms
         \<and> find_king board_g4 White = Inr (Some kg) \<and> (\<forall>mv \<in> set ms. snd mv \<noteq> kg))"
  using reachable_kings [OF scenario_reachable(3)] by (simp add: next_turn_def)

text \<open>
  C7. The side that is not to move can have a move onto the king: after the four moves
  of scenario A it is White's turn, the white king stands on (7, 4), and the generator
  gives the black queen on (4, 7) the destination (7, 4), which \<open>all_legal_moves\<close>
  for Black lists.
\<close>

theorem either_side_counterexample:
  "reachable board_h4 White
   \<and> find_king board_h4 White = Inr (Some (7, 4))
   \<and> legal_moves_from board_h4 4 7 Black =
       Inr [(5, 6), (6, 5), (7, 4), (3, 6), (2, 5), (1, 4), (0, 3), (5, 7), (6, 7), (3, 7),
            (2, 7), (4, 6)]
   \<and> all_legal_moves board_h4 Black =
       Inr [((0, 1), 2, 2), ((0, 1), 2, 0), ((0, 4), 0, 3), ((0, 4), 1, 4),
            ((0, 5), 1, 4), ((0, 5), 2, 3), ((0, 5), 3, 2), ((0, 5), 4, 1),
            ((0, 5), 5, 0), ((0, 6), 2, 7), ((0, 6), 1, 4), ((0, 6), 2, 5),
            ((1, 0), 2, 0), ((1, 0), 3, 0), ((1, 1), 2, 1), ((1, 1), 3, 1),
            ((1, 2), 2, 2), ((1, 2), 3, 2), ((1, 3), 2, 3), ((1, 3), 3, 3),
            ((1, 5), 2, 5), ((1, 5), 3, 5), ((1, 6), 2, 6), ((1, 6), 3, 6),
            ((1, 7), 2, 7), ((1, 7), 3, 7), ((3, 4), 4, 4), ((4, 7), 5, 6),
            ((4, 7), 6, 5), ((4, 7), 7, 4), ((4, 7), 3, 6), ((4, 7), 2, 5),
            ((4, 7), 1, 4), ((4, 7), 0, 3), ((4, 7), 5, 7), ((4, 7), 6, 7),
            ((4, 7), 3, 7), ((4, 7), 2, 7), ((4, 7), 4, 6)]"
proof (intro conjI)
  show "reachable board_h4 White" by (rule scenario_reachable(4))
qed code_simp+

end
